theory Spec2Isabelle
  imports Main
begin

section \<open>Numbers, errors and sessions\<close>

text \<open>
  The driver counts permits with JavaScript numbers. The counts that reach it are
  integers, or \<open>Infinity\<close>: the default \<open>maxSockets\<close> of Node's global HTTP agent.
  Fractions and \<open>NaN\<close> are left out of the model; integers are taken within the range
  in which a double is exact.
\<close>

datatype jsnumber = Fin int | PosInfinity

fun num_less :: "jsnumber \<Rightarrow> jsnumber \<Rightarrow> bool" where
  "num_less (Fin a) (Fin b) = (a < b)"
| "num_less (Fin a) PosInfinity = True"
| "num_less PosInfinity b = False"

fun num_succ :: "jsnumber \<Rightarrow> jsnumber" where
  "num_succ (Fin a) = Fin (a + 1)"
| "num_succ PosInfinity = PosInfinity"

fun num_pred :: "jsnumber \<Rightarrow> jsnumber" where
  "num_pred (Fin a) = Fin (a - 1)"
| "num_pred PosInfinity = PosInfinity"

text \<open>
  The error classes of \<open>errors/Errors\<close> that the driver tells apart, and the
  \<open>RangeError\<close> of the constructor with the values its message interpolates.
  \<open>SessionPoolEmptyError\<close> carries the value it is constructed with;
  \<open>None\<close> is JavaScript's \<open>undefined\<close>. \<open>OtherError\<close> is every other failure
  (a transport failure, a conflict that exhausted the retry policy, ...).
\<close>

datatype rangeError = NegativePoolLimit | ExceedsClientLimit jsnumber jsnumber

datatype error =
    RangeError rangeError
  | DriverClosedError
  | SessionPoolEmptyError "jsnumber option"
  | StartTransactionError
  | InvalidSessionException
  | OtherError string

definition isInvalidSessionException :: "error \<Rightarrow> bool" where
  "isInvalidSessionException err = (err = InvalidSessionException)"

text \<open>
  A \<open>QldbSession\<close> object, as far as the driver looks at it: the flag
  \<open>isSessionOpen()\<close> reads, and whether \<open>endSession()\<close> has ended its transport
  handle. Sessions are objects the pool holds by reference, so the model keeps them in
  a store indexed by the order of their creation.
\<close>

record qldbSession =
  isSessionOpen :: bool
  transportEnded :: bool

section \<open>The driver\<close>

text \<open>
  The fields of \<open>QldbDriver\<close> that the pool and the retry loop use, with the store of
  the sessions it created (\<open>sessions\<close>, \<open>created\<close> of them so far). \<open>semaphore\<close> is the
  permit count of the \<open>Semaphore\<close> object; \<open>timeoutMillis\<close> is \<open>None\<close> while the
  field is unassigned.
\<close>

record qldbDriver =
  maxConcurrentTransactions :: jsnumber
  timeoutMillis :: "jsnumber option"
  availablePermits :: jsnumber
  sessionPool :: "nat list"
  semaphore :: jsnumber
  isClosed :: bool
  sessions :: "nat \<Rightarrow> qldbSession"
  created :: nat

text \<open>
  The counting semaphore of the library \<open>semaphore-async-await\<close>: \<open>tryAcquire\<close> takes a
  permit when one is left and never waits, \<open>release\<close> gives one back. The driver calls
  nothing else of it, so no caller is ever queued.
\<close>

definition tryAcquire :: "jsnumber \<Rightarrow> bool \<times> jsnumber" where
  "tryAcquire permits =
     (if num_less (Fin 0) permits then (True, num_pred permits) else (False, permits))"

definition release :: "jsnumber \<Rightarrow> jsnumber" where
  "release permits = num_succ permits"

text \<open>
  The constructor, lines 80 to 120. \<open>agentMaxSockets\<close> is
  \<open>qldbClientOptions.httpOptions.agent.maxSockets\<close> when an agent is configured;
  \<open>globalMaxSockets\<close> is \<open>globalAgent.maxSockets\<close>. The constructor has no timeout
  parameter and assigns nothing to \<open>_timeoutMillis\<close>.
\<close>

definition maxSockets :: "jsnumber option \<Rightarrow> jsnumber \<Rightarrow> jsnumber" where
  "maxSockets agentMaxSockets globalMaxSockets =
     (case agentMaxSockets of Some m \<Rightarrow> m | None \<Rightarrow> globalMaxSockets)"

definition QldbDriver :: "jsnumber option \<Rightarrow> jsnumber \<Rightarrow> jsnumber \<Rightarrow> error + qldbDriver" where
  "QldbDriver agentMaxSockets globalMaxSockets maxConcurrent =
     (if num_less maxConcurrent (Fin 0) then Inl (RangeError NegativePoolLimit)
      else
        let limit = (if Fin 0 = maxConcurrent
                     then maxSockets agentMaxSockets globalMaxSockets else maxConcurrent)
        in if num_less (maxSockets agentMaxSockets globalMaxSockets) limit
           then Inl (RangeError
                  (ExceedsClientLimit limit (maxSockets agentMaxSockets globalMaxSockets)))
           else Inr \<lparr> maxConcurrentTransactions = limit,
                      timeoutMillis = None,
                      availablePermits = limit,
                      sessionPool = [],
                      semaphore = limit,
                      isClosed = False,
                      sessions = (\<lambda>i. \<lparr> isSessionOpen = False, transportEnded = False \<rparr>),
                      created = 0 \<rparr>)"

text \<open>
  \<open>_throwIfClosed\<close> and \<open>_createSession\<close>, lines 240 to 251. Whether
  \<open>Communicator.create\<close> succeeds is the transport's answer: \<open>None\<close>, or
  \<open>Some\<close> of the error it throws. A session that was just constructed is open.
\<close>

definition throwIfClosed :: "qldbDriver \<Rightarrow> error option" where
  "throwIfClosed d = (if isClosed d then Some DriverClosedError else None)"

definition createSession :: "error option \<Rightarrow> qldbDriver \<Rightarrow> (error + nat) \<times> qldbDriver" where
  "createSession transport d =
     (case throwIfClosed d of
        Some err \<Rightarrow> (Inl err, d)
      | None \<Rightarrow>
         (case transport of
            Some err \<Rightarrow> (Inl err, d)
          | None \<Rightarrow>
             (Inr (created d),
              d\<lparr> sessions := (sessions d)
                     (created d := \<lparr> isSessionOpen = True, transportEnded = False \<rparr>),
                 created := Suc (created d) \<rparr>)))"

text \<open>
  \<open>getSession\<close>, lines 206 to 229. \<open>Array.pop\<close> takes the last element of the pool
  and gives \<open>undefined\<close> on the empty one. An error thrown by \<open>_createSession\<close>
  passes through the \<open>catch\<close> that gives the permit back.
\<close>

definition getSession :: "error option \<Rightarrow> qldbDriver \<Rightarrow> (error + nat) \<times> qldbDriver" where
  "getSession transport d =
     (case throwIfClosed d of
        Some err \<Rightarrow> (Inl err, d)
      | None \<Rightarrow>
         (case tryAcquire (semaphore d) of
            (True, permits) \<Rightarrow>
              let d1 = d\<lparr> semaphore := permits,
                          availablePermits := num_pred (availablePermits d) \<rparr>
              in if sessionPool d1 = []
                 then (case createSession transport d1 of
                         (Inr session, d2) \<Rightarrow> (Inr session, d2)
                       | (Inl e, d2) \<Rightarrow>
                           (Inl e, d2\<lparr> semaphore := release (semaphore d2),
                                      availablePermits := num_succ (availablePermits d2) \<rparr>))
                 else (Inr (last (sessionPool d1)),
                       d1\<lparr> sessionPool := butlast (sessionPool d1) \<rparr>)
          | (False, permits) \<Rightarrow> (Inl (SessionPoolEmptyError (timeoutMillis d)), d)))"

text \<open>\<open>_returnSessionToPool\<close>, lines 231 to 238.\<close>

definition returnSessionToPool :: "nat \<Rightarrow> qldbDriver \<Rightarrow> qldbDriver" where
  "returnSessionToPool session d =
     (let d1 = (if isSessionOpen (sessions d session)
                then d\<lparr> sessionPool := sessionPool d @ [session] \<rparr> else d)
      in d1\<lparr> semaphore := release (semaphore d1),
              availablePermits := num_succ (availablePermits d1) \<rparr>)"

text \<open>
  Modelled from the spec: \<open>QldbSession.endSession\<close> is not among the sources; the
  specification says that \<open>close()\<close> "ends every currently-idle Session's underlying
  transport handle", which is all the model takes from it.
\<close>

definition endSession :: "nat \<Rightarrow> qldbDriver \<Rightarrow> qldbDriver" where
  "endSession session d =
     d\<lparr> sessions := (sessions d)(session := (sessions d session)\<lparr> transportEnded := True \<rparr>) \<rparr>"

text \<open>\<open>close\<close>, lines 199 to 204: \<open>forEach\<close> over the pool, in its order.\<close>

definition close :: "qldbDriver \<Rightarrow> qldbDriver" where
  "close d = (foldl (\<lambda>d' session. endSession session d') d (sessionPool d))\<lparr> isClosed := True \<rparr>"

subsection \<open>The retry loop of \<open>executeLambda\<close>\<close>

text \<open>
  What the world outside the driver answers in one iteration of the loop: whether
  creating a session succeeds (asked only when the pool is empty), what
  \<open>session.executeLambda\<close> returns or throws, and whether the session is open after
  that call. \<open>QldbSession\<close> is not among the sources, so its open flag after a run is
  an input of the model.
\<close>

record 'r attempt =
  createOutcome :: "error option"
  runOutcome :: "error + 'r"
  openAfterwards :: bool

definition sessionRan :: "nat \<Rightarrow> bool \<Rightarrow> qldbDriver \<Rightarrow> qldbDriver" where
  "sessionRan session stillOpen d =
     d\<lparr> sessions := (sessions d)(session := (sessions d session)\<lparr> isSessionOpen := stillOpen \<rparr>) \<rparr>"

datatype 'r completion = Continue | Return 'r | Throw error

text \<open>The \<open>catch\<close> block, lines 164 to 168, and the \<open>finally\<close> block, lines 169 to 174.\<close>

definition catchBlock :: "error \<Rightarrow> 'r completion" where
  "catchBlock err =
     (if err = StartTransactionError \<or> isInvalidSessionException err then Continue
      else Throw err)"

definition finallyBlock :: "nat option \<Rightarrow> qldbDriver \<Rightarrow> qldbDriver" where
  "finallyBlock session d =
     (case session of None \<Rightarrow> d | Some s \<Rightarrow> returnSessionToPool s d)"

text \<open>
  One iteration of \<open>while(true)\<close>, lines 161 to 174. \<open>session\<close> is the local variable
  declared before the loop on line 157: when \<open>getSession\<close> throws, the assignment of
  line 162 does not happen and the variable keeps the value it had.
\<close>

definition loopBody ::
  "'r attempt \<Rightarrow> nat option \<Rightarrow> qldbDriver \<Rightarrow> 'r completion \<times> nat option \<times> qldbDriver" where
  "loopBody a session d =
     (case getSession (createOutcome a) d of
        (Inl err, d1) \<Rightarrow> (catchBlock err, session, finallyBlock session d1)
      | (Inr s, d1) \<Rightarrow>
          let d2 = sessionRan s (openAfterwards a) d1 in
          (case runOutcome a of
             Inr v \<Rightarrow> (Return v, Some s, finallyBlock (Some s) d2)
           | Inl err \<Rightarrow> (catchBlock err, Some s, finallyBlock (Some s) d2)))"

text \<open>
  The loop itself has no bound, so it is a partial function: \<open>None\<close> is a call that
  never returns. \<open>env k\<close> is what the world answers in iteration \<open>k\<close>.
\<close>

partial_function (option) executeLambda_loop ::
  "(nat \<Rightarrow> 'r attempt) \<Rightarrow> nat \<Rightarrow> nat option \<Rightarrow> qldbDriver \<Rightarrow> ((error + 'r) \<times> qldbDriver) option"
where
  "executeLambda_loop env k session d =
     (case loopBody (env k) session d of
        (Continue, session', d') \<Rightarrow> executeLambda_loop env (Suc k) session' d'
      | (Return v, session', d') \<Rightarrow> Some (Inr v, d')
      | (Throw err, session', d') \<Rightarrow> Some (Inl err, d'))"

declare executeLambda_loop.simps [code]

definition executeLambda ::
  "(nat \<Rightarrow> 'r attempt) \<Rightarrow> qldbDriver \<Rightarrow> ((error + 'r) \<times> qldbDriver) option" where
  "executeLambda env d = executeLambda_loop env 0 None d"

subsection \<open>Histories of pool operations\<close>

text \<open>
  What can happen to a driver over time, one operation after the other: a session is
  asked for, a session is given back, a borrowed session runs and leaves its open flag
  set or cleared, the driver is closed. \<open>poolRun\<close> also collects the sessions that
  \<open>getSession\<close> handed out.
\<close>

datatype poolOp = GetSession "error option" | ReturnSession nat | SessionRan nat bool | Close

fun poolStep :: "qldbDriver \<times> nat list \<Rightarrow> poolOp \<Rightarrow> qldbDriver \<times> nat list" where
  "poolStep (d, handed) (GetSession transport) =
     (case getSession transport d of
        (Inl err, d') \<Rightarrow> (d', handed)
      | (Inr s, d') \<Rightarrow> (d', handed @ [s]))"
| "poolStep (d, handed) (ReturnSession s) = (returnSessionToPool s d, handed)"
| "poolStep (d, handed) (SessionRan s stillOpen) = (sessionRan s stillOpen d, handed)"
| "poolStep (d, handed) Close = (close d, handed)"

definition poolRun :: "poolOp list \<Rightarrow> qldbDriver \<Rightarrow> qldbDriver \<times> nat list" where
  "poolRun ops d = foldl poolStep (d, []) ops"

section \<open>The result stream\<close>

text \<open>
  The answers of the service as \<open>ResultStream\<close> reads them. A page is the list of
  its values (each an undecoded \<open>IonBinary\<close> payload of type \<open>'b\<close>) and the token
  of the next page, when there is one. \<open>ConsumedIOs\<close> and \<open>TimingInformation\<close> are
  the reported \<open>ReadIOs\<close> and \<open>ProcessingTimeMilliseconds\<close>, \<open>None\<close> when the
  answer carries no such report. Pages are taken as the service sends them: with
  their list of values present.
\<close>

record 'b page =
  Values :: "'b list"
  NextPageToken :: "string option"

record 'b executeStatementResult =
  FirstPage :: "'b page"
  FirstConsumedIOs :: "int option"
  FirstTimingInformation :: "int option"

record 'b fetchPageResult =
  Page :: "'b page"
  ConsumedIOs :: "int option"
  TimingInformation :: "int option"

text \<open>
  The fields of \<open>ResultStream\<close>, lines 35 to 42, and what the stream has done to
  the world around it: the values it gave to \<open>push\<close> (\<open>pushed\<close>), how often it
  pushed the end signal \<open>null\<close> (\<open>endPushes\<close>), the error it was destroyed with,
  the \<open>fetchPage\<close> calls it made (transaction id and token), and how many of those
  have not been answered yet (\<open>inFlight\<close>).
\<close>

record ('b, 'v) resultStream =
  cachedPage :: "'b page"
  txnId :: string
  shouldPushCachedPage :: bool
  retrieveIndex :: nat
  isPushingData :: bool
  ioUsage :: "int option"
  timingInformation :: "int option"
  pushed :: "'v list"
  endPushes :: nat
  destroyed :: "error option"
  fetchCalls :: "(string \<times> string) list"
  inFlight :: nat

text \<open>
  Modelled from the spec: \<open>Result._getIOUsage\<close> and
  \<open>Result._getTimingInformation\<close> are not among the sources. The specification
  says of each accumulator that it "starts unset" and that "the first page/attempt
  that reports a non-null value initializes the accumulator to that value".
\<close>

definition getIOUsage :: "int option \<Rightarrow> int option" where
  "getIOUsage consumedIOs = (case consumedIOs of None \<Rightarrow> None | Some readIOs \<Rightarrow> Some readIOs)"

definition getTimingInformation :: "int option \<Rightarrow> int option" where
  "getTimingInformation timing = (case timing of None \<Rightarrow> None | Some ms \<Rightarrow> Some ms)"

text \<open>
  Modelled from the spec: \<open>IOUsageImpl.accumulateIOUsage\<close> and
  \<open>TimingInformationImpl.accumulateTimingInfo\<close> are not among the sources. The
  specification says that every later report "adds into the existing accumulator; an
  omitted report contributes zero without resetting the total".
\<close>

definition accumulateIOUsage :: "int \<Rightarrow> int option \<Rightarrow> int" where
  "accumulateIOUsage running consumedIOs =
     running + (case consumedIOs of None \<Rightarrow> 0 | Some readIOs \<Rightarrow> readIOs)"

definition accumulateTimingInfo :: "int \<Rightarrow> int option \<Rightarrow> int" where
  "accumulateTimingInfo running timing = running + (case timing of None \<Rightarrow> 0 | Some ms \<Rightarrow> ms)"

text \<open>The constructor, lines 50 to 60.\<close>

definition ResultStream :: "string \<Rightarrow> 'b executeStatementResult \<Rightarrow> ('b, 'v) resultStream" where
  "ResultStream txn executeResult =
     \<lparr> cachedPage = FirstPage executeResult,
       txnId = txn,
       shouldPushCachedPage = True,
       retrieveIndex = 0,
       isPushingData = False,
       ioUsage = getIOUsage (FirstConsumedIOs executeResult),
       timingInformation = getTimingInformation (FirstTimingInformation executeResult),
       pushed = [],
       endPushes = 0,
       destroyed = None,
       fetchCalls = [],
       inFlight = 0 \<rparr>"

text \<open>
  The test \<open>if (this._cachedPage.NextPageToken)\<close>: an absent token and the empty
  string are both false in JavaScript.
\<close>

definition nextPageToken :: "'b page \<Rightarrow> string option" where
  "nextPageToken p =
     (case NextPageToken p of None \<Rightarrow> None | Some t \<Rightarrow> if t = [] then None else Some t)"

text \<open>The two updates after a page was fetched, lines 107 to 118.\<close>

definition mergeIOUsage :: "int option \<Rightarrow> int option \<Rightarrow> int option" where
  "mergeIOUsage usage consumedIOs =
     (case usage of
        None \<Rightarrow> (case consumedIOs of Some readIOs \<Rightarrow> Some readIOs | None \<Rightarrow> None)
      | Some running \<Rightarrow> Some (accumulateIOUsage running consumedIOs))"

definition mergeTimingInformation :: "int option \<Rightarrow> int option \<Rightarrow> int option" where
  "mergeTimingInformation info timing =
     (case info of
        None \<Rightarrow> (case timing of Some ms \<Rightarrow> Some ms | None \<Rightarrow> None)
      | Some running \<Rightarrow> Some (accumulateTimingInfo running timing))"

text \<open>
  Lines 129 to 131: the value at \<open>retrieveIndex\<close> is decoded and given to \<open>push\<close>,
  and the index moves on. \<open>decode\<close> is \<open>dom.load\<close> after \<open>Result._handleBlob\<close>,
  taken as a function that decodes every payload the service sends. What \<open>push\<close>
  answers is the consumer's matter: \<open>accept n\<close> is the answer to the push number
  \<open>n\<close> of the stream, counted from 0. A value is taken by the stream's buffer also
  when the answer is \<open>false\<close>.
\<close>

definition pushValue :: "('b \<Rightarrow> 'v) \<Rightarrow> ('b, 'v) resultStream \<Rightarrow> ('b, 'v) resultStream" where
  "pushValue decode s =
     s\<lparr> retrieveIndex := Suc (retrieveIndex s),
        pushed := pushed s @ [decode (Values (cachedPage s) ! retrieveIndex s)] \<rparr>"

text \<open>
  The \<open>while\<close> loop, lines 128 to 136. The result says whether the loop ran to its
  end (\<open>True\<close>) or left through the \<open>return\<close> of line 134 (\<open>False\<close>): the value of
  \<open>canPush\<close> after it.
\<close>

function pushLoop ::
  "('b \<Rightarrow> 'v) \<Rightarrow> (nat \<Rightarrow> bool) \<Rightarrow> ('b, 'v) resultStream \<Rightarrow> bool \<times> ('b, 'v) resultStream" where
  "pushLoop decode accept s =
     (if retrieveIndex s < length (Values (cachedPage s))
      then (if accept (length (pushed s))
            then pushLoop decode accept (pushValue decode s)
            else (False,
                  (pushValue decode s)
                    \<lparr> shouldPushCachedPage :=
                        retrieveIndex (pushValue decode s)
                          < length (Values (cachedPage (pushValue decode s))) \<rparr>))
      else (True, s))"
  by pat_completeness auto
termination
  by (relation "measure (\<lambda>(decode, accept, s). length (Values (cachedPage s)) - retrieveIndex s)")
     (auto simp add: pushValue_def)

declare pushLoop.simps [simp del]

lemma pushLoop_page:
  "pushLoop decode accept s = (canPush, s') \<Longrightarrow> cachedPage s' = cachedPage s"
proof (induction decode accept s rule: pushLoop.induct)
  case (1 decode accept s)
  then show ?case
    by (subst (asm) (2) pushLoop.simps) (auto simp add: pushValue_def split: if_splits)
qed

lemma pushLoop_flag:
  "pushLoop decode accept s = (True, s') \<Longrightarrow> shouldPushCachedPage s' = shouldPushCachedPage s"
proof (induction decode accept s rule: pushLoop.induct)
  case (1 decode accept s)
  then show ?case
    by (subst (asm) (2) pushLoop.simps) (auto simp add: pushValue_def split: if_splits)
qed

text \<open>
  \<open>_read\<close> (lines 83 to 89) and \<open>_pushPageValues\<close> (lines 96 to 150).
  \<open>_pushPageValues\<close> is an \<open>async\<close> function: it runs until its \<open>await\<close> and
  goes on when the answer is there, so it is modelled in two parts.
  \<open>pushPageValues\<close> is the part up to the \<open>await\<close> of line 104, where it stops
  with the \<open>fetchPage\<close> call made and in flight, or up to the end when it fetches
  nothing. \<open>drainPage\<close> is lines 128 to 141, \<open>streamFinally\<close> the \<open>finally\<close>
  block, which calls \<open>_read\<close> again when \<open>canPush\<close> is still true.
\<close>

function read ::
    "('b \<Rightarrow> 'v) \<Rightarrow> (nat \<Rightarrow> bool) \<Rightarrow> ('b, 'v) resultStream \<Rightarrow> ('b, 'v) resultStream"
  and pushPageValues ::
    "('b \<Rightarrow> 'v) \<Rightarrow> (nat \<Rightarrow> bool) \<Rightarrow> ('b, 'v) resultStream \<Rightarrow> ('b, 'v) resultStream"
  and drainPage ::
    "('b \<Rightarrow> 'v) \<Rightarrow> (nat \<Rightarrow> bool) \<Rightarrow> ('b, 'v) resultStream \<Rightarrow> ('b, 'v) resultStream"
  and streamFinally ::
    "('b \<Rightarrow> 'v) \<Rightarrow> (nat \<Rightarrow> bool) \<Rightarrow> bool \<Rightarrow> ('b, 'v) resultStream \<Rightarrow> ('b, 'v) resultStream"
where
  "read decode accept s =
     (if isPushingData s then s
      else pushPageValues decode accept (s\<lparr> isPushingData := True \<rparr>))"
| "pushPageValues decode accept s =
     (if shouldPushCachedPage s
      then drainPage decode accept (s\<lparr> shouldPushCachedPage := False \<rparr>)
      else (case nextPageToken (cachedPage s) of
              Some token \<Rightarrow>
                s\<lparr> fetchCalls := fetchCalls s @ [(txnId s, token)],
                   inFlight := Suc (inFlight s) \<rparr>
            | None \<Rightarrow> drainPage decode accept s))"
| "drainPage decode accept s =
     (case pushLoop decode accept s of
        (canPush, s') \<Rightarrow>
          if \<not> canPush then streamFinally decode accept False s'
          else if nextPageToken (cachedPage s') = None
          then streamFinally decode accept False (s'\<lparr> endPushes := Suc (endPushes s') \<rparr>)
          else streamFinally decode accept True s')"
| "streamFinally decode accept canPush s =
     (if canPush then read decode accept (s\<lparr> isPushingData := False \<rparr>)
      else s\<lparr> isPushingData := False \<rparr>)"
  by pat_completeness auto
termination
proof (relation "measure (\<lambda>x.
    let rank = (\<lambda>s. if nextPageToken (cachedPage s) = None then 2
                      else if shouldPushCachedPage s then 4 else (0::nat))
    in case x of
         Inl (Inl (decode, accept, s)) \<Rightarrow> rank s + 1
       | Inl (Inr (decode, accept, s)) \<Rightarrow> rank s
       | Inr (Inl (decode, accept, s)) \<Rightarrow>
           (if nextPageToken (cachedPage s) = None then 1
            else if shouldPushCachedPage s then 7 else 3)
       | Inr (Inr (decode, accept, canPush, s)) \<Rightarrow> (if canPush then rank s + 2 else 0))",
    goal_cases)
  case 1
  show ?case by simp
next
  case (2 decode accept s)
  then show ?case by simp
next
  case (3 decode accept s)
  then show ?case by simp
next
  case (4 decode accept s)
  then show ?case by simp
next
  case (5 decode accept s canPush s')
  from 5(1) have "pushLoop decode accept s = (canPush, s')"
    by simp
  with 5(2) show ?case by simp
next
  case (6 decode accept s canPush s')
  from 6(1) have "pushLoop decode accept s = (canPush, s')"
    by simp
  with 6(2,3) show ?case by simp
next
  case (7 decode accept s canPush s')
  from 7(1) have run: "pushLoop decode accept s = (canPush, s')"
    by simp
  with 7(2) have "pushLoop decode accept s = (True, s')"
    by simp
  from pushLoop_page [OF this] pushLoop_flag [OF this] run 7(2,3) show ?case
    by auto
next
  case (8 decode accept canPush s)
  then show ?case by simp
qed

declare read.simps [simp del] pushPageValues.simps [simp del]
  drainPage.simps [simp del] streamFinally.simps [simp del]

text \<open>
  The other part of \<open>_pushPageValues\<close>: the call of \<open>fetchPage\<close> is answered, with
  a page (lines 105 to 120, and on to the loop) or with an error (lines 121 to 125).
\<close>

definition fetchPageSettled ::
  "('b \<Rightarrow> 'v) \<Rightarrow> (nat \<Rightarrow> bool) \<Rightarrow> error + 'b fetchPageResult
     \<Rightarrow> ('b, 'v) resultStream \<Rightarrow> ('b, 'v) resultStream" where
  "fetchPageSettled decode accept answer s =
     (case answer of
        Inr fetchPageResult \<Rightarrow>
          drainPage decode accept
            (s\<lparr> inFlight := inFlight s - 1,
                cachedPage := Page fetchPageResult,
                ioUsage := mergeIOUsage (ioUsage s) (ConsumedIOs fetchPageResult),
                timingInformation :=
                  mergeTimingInformation (timingInformation s) (TimingInformation fetchPageResult),
                retrieveIndex := 0 \<rparr>)
      | Inl e \<Rightarrow>
          streamFinally decode accept False
            (s\<lparr> inFlight := inFlight s - 1, destroyed := Some e \<rparr>))"





subsection \<open>Consuming a stream to its end\<close>

text \<open>
  A consumer that reads a stream to its end asks for data whenever the stream is idle,
  and the transport answers each \<open>fetchPage\<close> call with the next of its \<open>answers\<close>.
  Node calls \<open>_read\<close> no more once the end signal was pushed or the stream was
  destroyed, so the consumption stops there; it also stops when a call is in flight and
  the transport has no answer left. (A stream whose guard is set while no call is in
  flight does not occur; the consumption leaves it as it is.) That this terminates
  needs a few facts about the loop and about one call of \<open>_read\<close> on an idle stream.
\<close>

lemma pushLoop_frame:
  "pushLoop decode accept s = (canPush, s') \<Longrightarrow>
     txnId s' = txnId s \<and> isPushingData s' = isPushingData s
     \<and> ioUsage s' = ioUsage s \<and> timingInformation s' = timingInformation s
     \<and> endPushes s' = endPushes s \<and> destroyed s' = destroyed s
     \<and> fetchCalls s' = fetchCalls s \<and> inFlight s' = inFlight s"
proof (induction decode accept s rule: pushLoop.induct)
  case (1 decode accept s)
  then show ?case
    by (subst (asm) (2) pushLoop.simps) (auto simp add: pushValue_def split: if_splits)
qed

lemma pushLoop_index:
  "pushLoop decode accept s = (canPush, s') \<Longrightarrow>
     retrieveIndex s \<le> retrieveIndex s'
     \<and> (canPush \<longrightarrow> length (Values (cachedPage s)) \<le> retrieveIndex s')
     \<and> (\<not> canPush \<longrightarrow> retrieveIndex s < retrieveIndex s'
           \<and> retrieveIndex s' \<le> length (Values (cachedPage s))
           \<and> shouldPushCachedPage s' = (retrieveIndex s' < length (Values (cachedPage s))))"
proof (induction decode accept s rule: pushLoop.induct)
  case (1 decode accept s)
  then show ?case
    by (subst (asm) (2) pushLoop.simps) (auto simp add: pushValue_def split: if_splits)
qed

lemma drainPage_flat:
  assumes "\<not> shouldPushCachedPage s"
  shows "drainPage decode accept s =
     (case pushLoop decode accept s of
        (canPush, s') \<Rightarrow>
          if \<not> canPush then s'\<lparr> isPushingData := False \<rparr>
          else (case nextPageToken (cachedPage s') of
                  None \<Rightarrow> s'\<lparr> endPushes := Suc (endPushes s'), isPushingData := False \<rparr>
                | Some token \<Rightarrow>
                    s'\<lparr> isPushingData := True,
                        fetchCalls := fetchCalls s' @ [(txnId s', token)],
                        inFlight := Suc (inFlight s') \<rparr>))"
proof (cases "pushLoop decode accept s")
  case (Pair canPush s')
  show ?thesis
  proof (cases canPush)
    case False
    with Pair show ?thesis
      by (simp add: drainPage.simps streamFinally.simps)
  next
    case True
    with Pair have "shouldPushCachedPage s' = shouldPushCachedPage s"
      by (simp add: pushLoop_flag)
    with assms Pair True show ?thesis
      by (simp add: drainPage.simps streamFinally.simps read.simps pushPageValues.simps
          split: option.splits)
  qed
qed

lemma read_fetches:
  assumes "\<not> isPushingData s" and "\<not> shouldPushCachedPage s"
    and "nextPageToken (cachedPage s) = Some token"
  shows "read decode accept s =
           s\<lparr> isPushingData := True,
              fetchCalls := fetchCalls s @ [(txnId s, token)],
              inFlight := Suc (inFlight s) \<rparr>"
  using assms by (simp add: read.simps pushPageValues.simps)

lemma read_drains:
  assumes "\<not> isPushingData s"
    and "shouldPushCachedPage s \<or> nextPageToken (cachedPage s) = None"
  shows "read decode accept s =
           drainPage decode accept (s\<lparr> isPushingData := True, shouldPushCachedPage := False \<rparr>)"
proof (cases "shouldPushCachedPage s")
  case True
  with assms show ?thesis
    by (simp add: read.simps pushPageValues.simps)
next
  case False
  then have same: "s\<lparr> isPushingData := True, shouldPushCachedPage := False \<rparr>
      = s\<lparr> isPushingData := True \<rparr>"
    by (cases s) simp
  from False assms show ?thesis
    unfolding same by (simp add: read.simps pushPageValues.simps)
qed

definition consumeRank :: "('b, 'v) resultStream \<Rightarrow> nat" where
  "consumeRank s =
     (if 0 < endPushes s \<or> destroyed s \<noteq> None \<or> 0 < inFlight s \<or> isPushingData s then 0
      else 1 + 2 * (length (Values (cachedPage s)) - retrieveIndex s)
             + (if shouldPushCachedPage s then 1 else 0))"

lemma read_progress:
  assumes "\<not> isPushingData s" and "inFlight s = 0" and "endPushes s = 0" and "destroyed s = None"
  shows "consumeRank (read decode accept s) < consumeRank s"
proof (cases "shouldPushCachedPage s \<or> nextPageToken (cachedPage s) = None")
  case False
  then obtain token where "nextPageToken (cachedPage s) = Some token" "\<not> shouldPushCachedPage s"
    by auto
  with assms show ?thesis
    by (simp add: read_fetches consumeRank_def)
next
  case True
  let ?t = "s\<lparr> isPushingData := True, shouldPushCachedPage := False \<rparr>"
  obtain canPush s' where run: "pushLoop decode accept ?t = (canPush, s')"
    by (cases "pushLoop decode accept ?t")
  note facts = pushLoop_frame [OF run] pushLoop_index [OF run] pushLoop_page [OF run]
    pushLoop_flag [of decode accept ?t s']
  have "read decode accept s = drainPage decode accept ?t"
    using assms(1) True by (rule read_drains)
  also have "\<dots> =
     (if \<not> canPush then s'\<lparr> isPushingData := False \<rparr>
      else (case nextPageToken (cachedPage s') of
              None \<Rightarrow> s'\<lparr> endPushes := Suc (endPushes s'), isPushingData := False \<rparr>
            | Some token \<Rightarrow>
                s'\<lparr> isPushingData := True,
                    fetchCalls := fetchCalls s' @ [(txnId s', token)],
                    inFlight := Suc (inFlight s') \<rparr>))"
    by (simp add: drainPage_flat run)
  finally have r: "read decode accept s =
     (if \<not> canPush then s'\<lparr> isPushingData := False \<rparr>
      else (case nextPageToken (cachedPage s') of
              None \<Rightarrow> s'\<lparr> endPushes := Suc (endPushes s'), isPushingData := False \<rparr>
            | Some token \<Rightarrow>
                s'\<lparr> isPushingData := True,
                    fetchCalls := fetchCalls s' @ [(txnId s', token)],
                    inFlight := Suc (inFlight s') \<rparr>))" .
  show ?thesis
  proof (cases canPush)
    case True
    with r assms show ?thesis
      by (auto simp add: consumeRank_def split: option.splits)
  next
    case False
    with facts assms True r show ?thesis
      by (auto simp add: consumeRank_def)
  qed
qed

function consume ::
  "('b \<Rightarrow> 'v) \<Rightarrow> (nat \<Rightarrow> bool) \<Rightarrow> (error + 'b fetchPageResult) list
     \<Rightarrow> ('b, 'v) resultStream \<Rightarrow> ('b, 'v) resultStream" where
  "consume decode accept answers s =
     (if 0 < endPushes s \<or> destroyed s \<noteq> None then s
      else if 0 < inFlight s
      then (case answers of
              [] \<Rightarrow> s
            | answer # rest \<Rightarrow>
                consume decode accept rest (fetchPageSettled decode accept answer s))
      else if isPushingData s then s
      else consume decode accept answers (read decode accept s))"
  by pat_completeness auto
termination
  by (relation "inv_image (less_than <*lex*> less_than)
                  (\<lambda>(decode, accept, answers, s). (length answers, consumeRank s))")
     (auto simp add: read_progress)

declare consume.simps [simp del]

text \<open>
  A sequence of pages as the service sends it: \<open>chained p rs\<close> says that the page
  \<open>p\<close> and the fetched pages \<open>rs\<close> after it each carry a token, but for the last
  one, which carries none. \<open>tokensOf\<close> lists the tokens of a list of pages.
\<close>

fun chained :: "'b page \<Rightarrow> 'b fetchPageResult list \<Rightarrow> bool" where
  "chained p [] = (nextPageToken p = None)"
| "chained p (r # rs) = (nextPageToken p \<noteq> None \<and> chained (Page r) rs)"

definition tokensOf :: "'b page list \<Rightarrow> string list" where
  "tokensOf ps = concat (map (\<lambda>p. case nextPageToken p of None \<Rightarrow> [] | Some t \<Rightarrow> [t]) ps)"

section \<open>Invariants of the stream\<close>

text \<open>
  \<open>standing\<close> holds of a stream that is being consumed and has neither ended nor
  failed: it is idle, with values of the cached page still to push or with that page
  pushed to its end, or it waits for the one page it asked for. \<open>finished\<close> holds once
  the end signal is pushed. \<open>promise decode s rs\<close> is what a stream in state \<open>s\<close>
  will have done when the pages \<open>rs\<close> have arrived and all is consumed, and
  \<open>observed\<close> is what it has done. \<open>singleFlight\<close> ties the guard
  \<open>_isPushingData\<close> to the fetch in flight.
\<close>

definition standing :: "('b, 'v) resultStream \<Rightarrow> bool" where
  "standing s =
     (endPushes s = 0 \<and> destroyed s = None
      \<and> (if inFlight s = 0
          then \<not> isPushingData s
               \<and> (shouldPushCachedPage s \<or> length (Values (cachedPage s)) \<le> retrieveIndex s)
          else inFlight s = 1 \<and> isPushingData s \<and> \<not> shouldPushCachedPage s
               \<and> length (Values (cachedPage s)) \<le> retrieveIndex s
               \<and> nextPageToken (cachedPage s) \<noteq> None))"

definition finished :: "('b, 'v) resultStream \<Rightarrow> bool" where
  "finished s = (endPushes s = 1 \<and> destroyed s = None \<and> inFlight s = 0 \<and> \<not> isPushingData s)"

definition observed ::
  "('b, 'v) resultStream \<Rightarrow> 'v list \<times> (string \<times> string) list \<times> int option \<times> int option \<times> 'b page \<times> string" where
  "observed s = (pushed s, fetchCalls s, ioUsage s, timingInformation s, cachedPage s, txnId s)"

definition promise ::
  "('b \<Rightarrow> 'v) \<Rightarrow> ('b, 'v) resultStream \<Rightarrow> 'b fetchPageResult list
     \<Rightarrow> 'v list \<times> (string \<times> string) list \<times> int option \<times> int option \<times> 'b page \<times> string" where
  "promise decode s rs =
     (pushed s @ map decode (drop (retrieveIndex s) (Values (cachedPage s))
                             @ concat (map (\<lambda>r. Values (Page r)) rs)),
      fetchCalls s @ map (Pair (txnId s))
        (tokensOf (if inFlight s = 0 then cachedPage s # map Page rs else map Page rs)),
      foldl mergeIOUsage (ioUsage s) (map ConsumedIOs rs),
      foldl mergeTimingInformation (timingInformation s) (map TimingInformation rs),
      last (cachedPage s # map Page rs),
      txnId s)"


section \<open>Concrete drivers, answers and pages\<close>

text \<open>
  A driver of capacity 1 as the constructor builds it; the same driver with its one
  session borrowed, with that session back in the pool, and with the borrowed session
  closed.
\<close>

definition capacityOne :: qldbDriver where
  "capacityOne =
     \<lparr> maxConcurrentTransactions = Fin 1, timeoutMillis = None, availablePermits = Fin 1,
       sessionPool = [], semaphore = Fin 1, isClosed = False,
       sessions = (\<lambda>i. \<lparr> isSessionOpen = False, transportEnded = False \<rparr>), created = 0 \<rparr>"

definition borrowedOne :: qldbDriver where
  "borrowedOne = snd (getSession None capacityOne)"

definition idleOne :: qldbDriver where
  "idleOne = returnSessionToPool 0 borrowedOne"

definition brokenOne :: qldbDriver where
  "brokenOne = sessionRan 0 False borrowedOne"

text \<open>
  Three worlds for \<open>executeLambda\<close>. In \<open>staleRelease\<close> the first session fails
  with an invalid-session error and is closed, and no further session can be created.
  In \<open>stillOpenFailure\<close> the first attempt fails with \<open>StartTransactionError\<close>
  and leaves its session open, and the second attempt succeeds. In
  \<open>twoReplacements\<close> two attempts fail with errors of the two classes the loop
  absorbs, the third succeeds, the fourth fails with another error, and from the
  fifth on no session can be created.
\<close>

definition staleRelease :: "nat \<Rightarrow> nat attempt" where
  "staleRelease k =
     (if k = 0
      then \<lparr> createOutcome = None, runOutcome = Inl InvalidSessionException,
             openAfterwards = False \<rparr>
      else \<lparr> createOutcome = Some (OtherError ''session creation failed''),
             runOutcome = Inl (OtherError ''unused''), openAfterwards = False \<rparr>)"

definition stillOpenFailure :: "nat \<Rightarrow> nat attempt" where
  "stillOpenFailure k =
     (if k = 0
      then \<lparr> createOutcome = None, runOutcome = Inl StartTransactionError,
             openAfterwards = True \<rparr>
      else \<lparr> createOutcome = None, runOutcome = Inr 7, openAfterwards = True \<rparr>)"

definition twoReplacements :: "nat \<Rightarrow> nat attempt" where
  "twoReplacements k =
     (if k = 0
      then \<lparr> createOutcome = None, runOutcome = Inl StartTransactionError,
             openAfterwards = True \<rparr>
      else if k = 1
      then \<lparr> createOutcome = None, runOutcome = Inl InvalidSessionException,
             openAfterwards = False \<rparr>
      else if k = 2
      then \<lparr> createOutcome = None, runOutcome = Inr 7, openAfterwards = True \<rparr>
      else if k = 3
      then \<lparr> createOutcome = None, runOutcome = Inl (OtherError ''conflict''),
             openAfterwards = True \<rparr>
      else \<lparr> createOutcome = Some (OtherError ''transport down''),
             runOutcome = Inl (OtherError ''unused''), openAfterwards = True \<rparr>)"

text \<open>
  A result of two pages: the values 1 and 2 with the token \<open>t2\<close>, then the value 3
  and no token. The first answer reports a processing time only, the second read IOs
  only.
\<close>

definition twoPages :: "nat executeStatementResult" where
  "twoPages =
     \<lparr> FirstPage = \<lparr> Values = [1, 2], NextPageToken = Some ''t2'' \<rparr>,
       FirstConsumedIOs = None, FirstTimingInformation = Some 5 \<rparr>"

definition secondPage :: "nat fetchPageResult" where
  "secondPage =
     \<lparr> Page = \<lparr> Values = [3], NextPageToken = None \<rparr>,
       ConsumedIOs = Some 4, TimingInformation = None \<rparr>"

section \<open>The session pool\<close>

subsection \<open>Pool capacity at construction\<close>

lemma num_less_irrefl [simp]: "\<not> num_less a a"
  by (cases a) simp_all

text \<open>
  Claim C10. The constructor rejects with a \<open>RangeError\<close> every
  \<open>maxConcurrentTransactions\<close> whose effective value (the given value, or the agent's
  \<open>maxSockets\<close> when 0 is given) exceeds the \<open>maxSockets\<close> of the configured HTTP
  agent (the global agent when none is configured): an upper bound on the pool
  capacity beside the lower bound 0.
\<close>

theorem constructor_rejects_above_maxSockets:
  assumes "num_less (maxSockets agentMaxSockets globalMaxSockets)
             (if Fin 0 = maxConcurrent then maxSockets agentMaxSockets globalMaxSockets
              else maxConcurrent)"
  shows "QldbDriver agentMaxSockets globalMaxSockets maxConcurrent =
           Inl (RangeError
             (if num_less maxConcurrent (Fin 0) then NegativePoolLimit
              else ExceedsClientLimit maxConcurrent (maxSockets agentMaxSockets globalMaxSockets)))"
proof -
  from assms have ne: "Fin 0 \<noteq> maxConcurrent"
    by (auto split: if_splits)
  with assms have "num_less (maxSockets agentMaxSockets globalMaxSockets) maxConcurrent"
    by simp
  with ne show ?thesis
    by (simp add: QldbDriver_def Let_def)
qed

theorem constructor_rejects_above_maxSockets_witness:
  "num_less (maxSockets (Some (Fin 5)) PosInfinity)
     (if Fin 0 = Fin 6 then maxSockets (Some (Fin 5)) PosInfinity else Fin 6)
   \<and> QldbDriver (Some (Fin 5)) PosInfinity (Fin 6)
       = Inl (RangeError (ExceedsClientLimit (Fin 6) (Fin 5)))"
  using constructor_rejects_above_maxSockets [of "Some (Fin 5)" PosInfinity "Fin 6"]
  by (simp add: maxSockets_def)

subsection \<open>Acquiring a session\<close>

lemma num_succ_pred [simp]: "num_succ (num_pred a) = a"
  by (cases a) simp_all

lemma capacityOne_constructed: "QldbDriver None PosInfinity (Fin 1) = Inr capacityOne"
  by (simp add: QldbDriver_def capacityOne_def maxSockets_def Let_def)

lemma returnSessionToPool_fields:
  "sessionPool (returnSessionToPool s d) =
     (if isSessionOpen (sessions d s) then sessionPool d @ [s] else sessionPool d)"
  "semaphore (returnSessionToPool s d) = num_succ (semaphore d)"
  "availablePermits (returnSessionToPool s d) = num_succ (availablePermits d)"
  "isClosed (returnSessionToPool s d) = isClosed d"
  "created (returnSessionToPool s d) = created d"
  "sessions (returnSessionToPool s d) = sessions d"
  by (simp_all add: returnSessionToPool_def release_def Let_def)

lemma sessionRan_fields:
  "sessionPool (sessionRan s b d) = sessionPool d"
  "semaphore (sessionRan s b d) = semaphore d"
  "availablePermits (sessionRan s b d) = availablePermits d"
  "isClosed (sessionRan s b d) = isClosed d"
  "created (sessionRan s b d) = created d"
  "isSessionOpen (sessions (sessionRan s b d) s) = b"
  by (simp_all add: sessionRan_def)

lemma endSessions_fields:
  "sessionPool (foldl (\<lambda>d' s. endSession s d') d xs) = sessionPool d"
  "semaphore (foldl (\<lambda>d' s. endSession s d') d xs) = semaphore d"
  "availablePermits (foldl (\<lambda>d' s. endSession s d') d xs) = availablePermits d"
  "isClosed (foldl (\<lambda>d' s. endSession s d') d xs) = isClosed d"
  "created (foldl (\<lambda>d' s. endSession s d') d xs) = created d"
  by (induction xs arbitrary: d) (simp_all add: endSession_def)

lemma endSessions_ended:
  "transportEnded (sessions (foldl (\<lambda>d' s. endSession s d') d xs) s) =
     (s \<in> set xs \<or> transportEnded (sessions d s))"
  by (induction xs arbitrary: d) (auto simp add: endSession_def)

lemma close_fields:
  "sessionPool (close d) = sessionPool d"
  "semaphore (close d) = semaphore d"
  "availablePermits (close d) = availablePermits d"
  "isClosed (close d)"
  "created (close d) = created d"
  by (simp_all add: close_def endSessions_fields)

lemma getSession_capacityOne: "getSession None capacityOne = (Inr 0, borrowedOne)"
  by (simp add: borrowedOne_def)
     (simp add: capacityOne_def getSession_def throwIfClosed_def tryAcquire_def
       createSession_def Let_def)

lemma borrowedOne_fields:
  "sessionPool borrowedOne = []" "semaphore borrowedOne = Fin 0"
  "availablePermits borrowedOne = Fin 0" "\<not> isClosed borrowedOne" "created borrowedOne = 1"
  "isSessionOpen (sessions borrowedOne 0)" "timeoutMillis borrowedOne = None"
  by (simp_all add: borrowedOne_def capacityOne_def getSession_def throwIfClosed_def
        tryAcquire_def createSession_def release_def Let_def)

lemma idleOne_fields:
  "sessionPool idleOne = [0]" "semaphore idleOne = Fin 1"
  "availablePermits idleOne = Fin 1" "\<not> isClosed idleOne" "created idleOne = 1"
  by (simp_all add: idleOne_def returnSessionToPool_fields borrowedOne_fields)

lemma brokenOne_fields:
  "sessionPool brokenOne = []" "semaphore brokenOne = Fin 0"
  "availablePermits brokenOne = Fin 0" "\<not> isClosed brokenOne" "created brokenOne = 1"
  "\<not> isSessionOpen (sessions brokenOne 0)"
  by (simp_all add: brokenOne_def sessionRan_fields borrowedOne_fields)

text \<open>
  Claim C4. \<open>getSession\<close> fails at once with the driver-closed error when the
  closed flag is set. Otherwise it tries the semaphore without blocking: with no
  permit left it fails at once with the pool-exhausted error and changes nothing; with
  a permit it decrements the available permits and pops the last idle session when
  there is one, else creates a session; when the creation fails, the permit is given
  back (the driver is as it was before the call) and the creation error propagates.
\<close>

theorem getSession_cases:
  "(isClosed d \<longrightarrow> getSession transport d = (Inl DriverClosedError, d))
   \<and> (\<not> isClosed d \<and> \<not> num_less (Fin 0) (semaphore d) \<longrightarrow>
        getSession transport d = (Inl (SessionPoolEmptyError (timeoutMillis d)), d))
   \<and> (\<not> isClosed d \<and> num_less (Fin 0) (semaphore d) \<and> sessionPool d \<noteq> [] \<longrightarrow>
        getSession transport d =
          (Inr (last (sessionPool d)),
           d\<lparr> semaphore := num_pred (semaphore d),
              availablePermits := num_pred (availablePermits d),
              sessionPool := butlast (sessionPool d) \<rparr>))
   \<and> (\<not> isClosed d \<and> num_less (Fin 0) (semaphore d) \<and> sessionPool d = [] \<and> transport = None \<longrightarrow>
        getSession transport d =
          (Inr (created d),
           d\<lparr> semaphore := num_pred (semaphore d),
              availablePermits := num_pred (availablePermits d),
              sessions := (sessions d)(created d := \<lparr> isSessionOpen = True, transportEnded = False \<rparr>),
              created := Suc (created d) \<rparr>))
   \<and> (\<not> isClosed d \<and> num_less (Fin 0) (semaphore d) \<and> sessionPool d = [] \<and> transport = Some err \<longrightarrow>
        getSession transport d = (Inl err, d))"
  by (simp add: getSession_def throwIfClosed_def tryAcquire_def createSession_def release_def Let_def)

theorem getSession_cases_witness:
  "getSession None (close capacityOne) = (Inl DriverClosedError, close capacityOne)
   \<and> getSession None borrowedOne = (Inl (SessionPoolEmptyError None), borrowedOne)
   \<and> fst (getSession None idleOne) = Inr 0
   \<and> sessionPool (snd (getSession None idleOne)) = []
   \<and> availablePermits (snd (getSession None idleOne)) = Fin 0
   \<and> fst (getSession None capacityOne) = Inr 0
   \<and> availablePermits (snd (getSession None capacityOne)) = Fin 0
   \<and> getSession (Some (OtherError ''no route'')) capacityOne
       = (Inl (OtherError ''no route''), capacityOne)"
proof -
  have open1: "\<not> isClosed capacityOne" "num_less (Fin 0) (semaphore capacityOne)"
    "sessionPool capacityOne = []" "created capacityOne = 0" "availablePermits capacityOne = Fin 1"
    by (simp_all add: capacityOne_def)
  from getSession_cases [of "close capacityOne" None]
  have "getSession None (close capacityOne) = (Inl DriverClosedError, close capacityOne)"
    by (simp add: close_fields)
  moreover from getSession_cases [of borrowedOne None]
  have "getSession None borrowedOne = (Inl (SessionPoolEmptyError None), borrowedOne)"
    by (simp add: borrowedOne_fields)
  moreover from getSession_cases [of idleOne None]
  have "fst (getSession None idleOne) = Inr 0
    \<and> sessionPool (snd (getSession None idleOne)) = []
    \<and> availablePermits (snd (getSession None idleOne)) = Fin 0"
    by (simp add: idleOne_fields)
  moreover from getSession_cases [of capacityOne None] open1
  have "fst (getSession None capacityOne) = Inr 0
    \<and> availablePermits (snd (getSession None capacityOne)) = Fin 0"
    by simp
  moreover from getSession_cases [of capacityOne "Some (OtherError ''no route'')" "OtherError ''no route''"] open1
  have "getSession (Some (OtherError ''no route'')) capacityOne
       = (Inl (OtherError ''no route''), capacityOne)"
    by simp
  ultimately show ?thesis by simp
qed

subsection \<open>Giving a session back\<close>

lemma getSession_result:
  assumes "getSession transport d = (r, d')"
  shows "isClosed d' = isClosed d"
    and "set (sessionPool d') \<subseteq> set (sessionPool d)"
    and "created d \<le> created d'"
    and "r = Inr s \<Longrightarrow> s \<in> set (sessionPool d) \<or> (s = created d \<and> created d < created d')"
  using assms
  by (auto simp add: getSession_def throwIfClosed_def tryAcquire_def createSession_def
      release_def Let_def split: if_splits option.splits dest: in_set_butlastD)

lemma getSession_keeps_session:
  assumes "getSession transport d = (r, d')" and "s < created d"
  shows "sessions d' s = sessions d s"
  using assms
  by (auto simp add: getSession_def throwIfClosed_def tryAcquire_def createSession_def
      release_def Let_def split: if_splits option.splits)

lemma endSessions_open:
  "isSessionOpen (sessions (foldl (\<lambda>d' session. endSession session d') d xs) s)
     = isSessionOpen (sessions d s)"
  by (induction xs arbitrary: d) (simp_all add: endSession_def)

lemma close_open: "isSessionOpen (sessions (close d) s) = isSessionOpen (sessions d s)"
  by (simp add: close_def endSessions_open)

lemma sessionRan_other: "s' \<noteq> s \<Longrightarrow> sessions (sessionRan s' b d) s = sessions d s"
  by (simp add: sessionRan_def)

lemma poolRun_snoc: "poolRun (ops @ [op]) d = poolStep (poolRun ops d) op"
  by (simp add: poolRun_def)

lemma poolStep_stays_out:
  assumes "s \<notin> set (sessionPool (fst st))" and "s < created (fst st)" and "s \<notin> set (snd st)"
    and "op = ReturnSession s \<longrightarrow> \<not> isSessionOpen (sessions (fst st) s)"
  shows "s \<notin> set (sessionPool (fst (poolStep st op)))
         \<and> s < created (fst (poolStep st op))
         \<and> s \<notin> set (snd (poolStep st op))"
proof (cases st)
  case (Pair d handed)
  show ?thesis
  proof (cases op)
    case (GetSession transport)
    obtain r d' where g: "getSession transport d = (r, d')"
      by (cases "getSession transport d")
    from getSession_result [OF g] assms Pair GetSession g show ?thesis
      by (cases r) (auto split: prod.splits)
  next
    case (ReturnSession s')
    with assms Pair show ?thesis
      by (auto simp add: returnSessionToPool_fields)
  next
    case (SessionRan s' b)
    with assms Pair show ?thesis
      by (simp add: sessionRan_fields)
  next
    case Close
    with assms Pair show ?thesis
      by (simp add: close_fields)
  qed
qed

lemma poolStep_stays_closed:
  assumes "s < created (fst st)" and "\<not> isSessionOpen (sessions (fst st) s)"
    and "op \<noteq> SessionRan s True"
  shows "s < created (fst (poolStep st op))
         \<and> \<not> isSessionOpen (sessions (fst (poolStep st op)) s)"
proof (cases st)
  case (Pair d handed)
  show ?thesis
  proof (cases op)
    case (GetSession transport)
    obtain r d' where g: "getSession transport d = (r, d')"
      by (cases "getSession transport d")
    from getSession_result(3) [OF g] getSession_keeps_session [OF g, of s] assms Pair
      GetSession g
    show ?thesis
      by (cases r) (auto split: prod.splits)
  next
    case (ReturnSession s')
    with assms Pair show ?thesis
      by (simp add: returnSessionToPool_fields)
  next
    case (SessionRan s' b)
    with assms Pair show ?thesis
      by (cases "s' = s") (simp_all add: sessionRan_fields sessionRan_other)
  next
    case Close
    with assms Pair show ?thesis
      by (simp add: close_fields close_open)
  qed
qed

lemma poolRun_stays_closed:
  assumes "s < created d" and "\<not> isSessionOpen (sessions d s)"
    and "SessionRan s True \<notin> set ops"
  shows "s < created (fst (poolRun ops d)) \<and> \<not> isSessionOpen (sessions (fst (poolRun ops d)) s)"
  using assms(3)
proof (induction ops rule: rev_induct)
  case Nil
  from assms(1,2) show ?case by (simp add: poolRun_def)
next
  case (snoc op ops)
  from snoc.prems have "op \<noteq> SessionRan s True" and "SessionRan s True \<notin> set ops"
    by auto
  with snoc.IH poolStep_stays_closed [of s "poolRun ops d" op] show ?case
    by (simp add: poolRun_snoc)
qed

lemma poolRun_hands_out_reopened_only:
  assumes "s \<notin> set (sessionPool d)" and "s < created d"
  shows "(s \<notin> set (sessionPool (fst (poolRun ops d)))
          \<and> s < created (fst (poolRun ops d))
          \<and> s \<notin> set (snd (poolRun ops d)))
         \<or> (\<exists>before after. ops = before @ ReturnSession s # after
              \<and> isSessionOpen (sessions (fst (poolRun before d)) s))"
proof (induction ops rule: rev_induct)
  case Nil
  from assms show ?case by (simp add: poolRun_def)
next
  case (snoc op ops)
  show ?case
  proof (cases "\<exists>before after. ops = before @ ReturnSession s # after
              \<and> isSessionOpen (sessions (fst (poolRun before d)) s)")
    case True
    then obtain before after where "ops = before @ ReturnSession s # after"
      and "isSessionOpen (sessions (fst (poolRun before d)) s)"
      by blast
    then have "ops @ [op] = before @ ReturnSession s # (after @ [op])
      \<and> isSessionOpen (sessions (fst (poolRun before d)) s)"
      by simp
    then show ?thesis by blast
  next
    case False
    with snoc.IH have out: "s \<notin> set (sessionPool (fst (poolRun ops d)))"
      "s < created (fst (poolRun ops d))" "s \<notin> set (snd (poolRun ops d))"
      by blast+
    show ?thesis
    proof (cases "op = ReturnSession s \<and> isSessionOpen (sessions (fst (poolRun ops d)) s)")
      case True
      then have "ops @ [op] = ops @ ReturnSession s # []
        \<and> isSessionOpen (sessions (fst (poolRun ops d)) s)"
        by simp
      then show ?thesis by blast
    next
      case False
      then have "op = ReturnSession s \<longrightarrow> \<not> isSessionOpen (sessions (fst (poolRun ops d)) s)"
        by blast
      from poolStep_stays_out [OF out this] show ?thesis
        by (simp add: poolRun_snoc)
    qed
  qed
qed

text \<open>
  Claim C7. \<open>_returnSessionToPool\<close> pushes the session onto the idle pool exactly
  when its open flag is true, and gives back exactly one permit either way. A
  borrowed session whose flag is false when it is given back is not handed out by
  any later \<open>getSession\<close>, whatever pool operations follow, as long as its flag is
  not set again: the driver may give the session back any number of times more (as
  the retry loop does with the session of an earlier iteration), it stays out of
  the pool. The same holds of every history that does not give the session back
  again. In general the session is handed out later only if, somewhere in the
  history, it is given back while its flag is true.
\<close>

theorem returnSessionToPool_requeues_open_only:
  "sessionPool (returnSessionToPool s d) =
     (if isSessionOpen (sessions d s) then sessionPool d @ [s] else sessionPool d)
   \<and> semaphore (returnSessionToPool s d) = num_succ (semaphore d)
   \<and> availablePermits (returnSessionToPool s d) = num_succ (availablePermits d)
   \<and> (\<not> isSessionOpen (sessions d s) \<and> s \<notin> set (sessionPool d) \<and> s < created d
        \<and> (SessionRan s True \<notin> set ops \<or> ReturnSession s \<notin> set ops)
      \<longrightarrow> s \<notin> set (snd (poolRun ops (returnSessionToPool s d))))
   \<and> (\<not> isSessionOpen (sessions d s) \<and> s \<notin> set (sessionPool d) \<and> s < created d
        \<and> s \<in> set (snd (poolRun ops (returnSessionToPool s d)))
      \<longrightarrow> (\<exists>before after. ops = before @ ReturnSession s # after
             \<and> isSessionOpen (sessions (fst (poolRun before (returnSessionToPool s d))) s)))"
proof -
  let ?d = "returnSessionToPool s d"
  have general: "\<exists>before after. ops = before @ ReturnSession s # after
             \<and> isSessionOpen (sessions (fst (poolRun before ?d)) s)"
    if "\<not> isSessionOpen (sessions d s)" "s \<notin> set (sessionPool d)" "s < created d"
      "s \<in> set (snd (poolRun ops ?d))" for ops
  proof -
    from that(1-3) have "s \<notin> set (sessionPool ?d)" and "s < created ?d"
      by (simp_all add: returnSessionToPool_fields)
    from poolRun_hands_out_reopened_only [OF this, of ops] that(4) show ?thesis
      by blast
  qed
  have "s \<notin> set (snd (poolRun ops ?d))"
    if closed: "\<not> isSessionOpen (sessions d s)" and out: "s \<notin> set (sessionPool d)"
      and made: "s < created d"
      and quiet: "SessionRan s True \<notin> set ops \<or> ReturnSession s \<notin> set ops"
  proof
    assume "s \<in> set (snd (poolRun ops ?d))"
    from general [OF closed out made this]
    obtain before after where parts: "ops = before @ ReturnSession s # after"
      and reopened: "isSessionOpen (sessions (fst (poolRun before ?d)) s)"
      by blast
    from parts quiet have "SessionRan s True \<notin> set before"
      by auto
    moreover from closed made have "s < created ?d" and "\<not> isSessionOpen (sessions ?d s)"
      by (simp_all add: returnSessionToPool_fields)
    ultimately have "\<not> isSessionOpen (sessions (fst (poolRun before ?d)) s)"
      using poolRun_stays_closed [of s ?d before] by blast
    with reopened show False by blast
  qed
  with general show ?thesis
    by (simp add: returnSessionToPool_fields)
qed

theorem returnSessionToPool_requeues_open_only_witness:
  "isSessionOpen (sessions borrowedOne 0)
   \<and> sessionPool (returnSessionToPool 0 borrowedOne) = [0]
   \<and> semaphore (returnSessionToPool 0 borrowedOne) = Fin 1
   \<and> \<not> isSessionOpen (sessions brokenOne 0)
   \<and> sessionPool (returnSessionToPool 0 brokenOne) = []
   \<and> semaphore (returnSessionToPool 0 brokenOne) = Fin 1
   \<and> availablePermits (returnSessionToPool 0 brokenOne) = Fin 1
   \<and> 0 \<notin> set (snd (poolRun [GetSession (Some (OtherError ''no route'')), ReturnSession 0,
                              GetSession None, SessionRan 1 True, ReturnSession 1,
                              GetSession None, Close]
                      (returnSessionToPool 0 brokenOne)))
   \<and> 0 \<in> set (snd (poolRun [SessionRan 0 True, ReturnSession 0, GetSession None]
                      (returnSessionToPool 0 brokenOne)))
   \<and> (\<exists>before after.
         [SessionRan 0 True, ReturnSession 0, GetSession None] = before @ ReturnSession 0 # after
         \<and> isSessionOpen (sessions (fst (poolRun before (returnSessionToPool 0 brokenOne))) 0))"
proof -
  have handed: "snd (poolRun [SessionRan 0 True, ReturnSession 0, GetSession None]
                  (returnSessionToPool 0 brokenOne)) = [0]"
    by (simp add: poolRun_def brokenOne_def borrowedOne_def capacityOne_def
        returnSessionToPool_def sessionRan_def getSession_def throwIfClosed_def tryAcquire_def
        createSession_def release_def Let_def)
  from returnSessionToPool_requeues_open_only [of 0 borrowedOne "[]"]
    returnSessionToPool_requeues_open_only
      [of 0 brokenOne "[GetSession (Some (OtherError ''no route'')), ReturnSession 0,
                        GetSession None, SessionRan 1 True, ReturnSession 1,
                        GetSession None, Close]"]
    returnSessionToPool_requeues_open_only
      [of 0 brokenOne "[SessionRan 0 True, ReturnSession 0, GetSession None]"]
    handed
  show ?thesis
    by (simp add: borrowedOne_fields brokenOne_fields)
qed

subsection \<open>Closing the driver\<close>

lemma poolStep_closed:
  "isClosed (fst st) \<Longrightarrow> isClosed (fst (poolStep st op))"
  by (cases st; cases op)
     (auto simp add: returnSessionToPool_fields sessionRan_fields close_fields
        split: prod.splits sum.splits dest: getSession_result(1))

lemma poolRun_closed_aux:
  "isClosed (fst st) \<Longrightarrow> isClosed (fst (foldl poolStep st ops))"
  by (induction ops arbitrary: st) (simp_all add: poolStep_closed)

lemma poolRun_closed: "isClosed d \<Longrightarrow> isClosed (fst (poolRun ops d))"
  by (simp add: poolRun_def poolRun_closed_aux)

lemma executeLambda_closed:
  "isClosed d \<Longrightarrow> executeLambda env d = Some (Inl DriverClosedError, d)"
  by (simp add: executeLambda_def executeLambda_loop.simps [of env 0] loopBody_def
      getSession_def throwIfClosed_def catchBlock_def isInvalidSessionException_def
      finallyBlock_def)

text \<open>
  Claim C8. \<open>close()\<close> marks the driver closed and ends the transport handle of
  every session that is idle at that moment, and leaves the pool as it is. After
  it, whatever pool operations follow (\<open>ops\<close>), every call of \<open>executeLambda\<close>
  fails at once with the driver-closed error and changes nothing, also while idle
  sessions remain in the pool.
\<close>

theorem close_ends_idle_sessions_and_refuses:
  "isClosed (close d)
   \<and> sessionPool (close d) = sessionPool d
   \<and> (\<forall>s \<in> set (sessionPool d). transportEnded (sessions (close d) s))
   \<and> executeLambda env (fst (poolRun ops (close d)))
        = Some (Inl DriverClosedError, fst (poolRun ops (close d)))"
  by (simp add: close_fields executeLambda_closed poolRun_closed)
     (simp add: close_def endSessions_ended)

theorem close_ends_idle_sessions_and_refuses_witness:
  "sessionPool idleOne = [0]
   \<and> isClosed (close idleOne)
   \<and> sessionPool (close idleOne) = [0]
   \<and> transportEnded (sessions (close idleOne) 0)
   \<and> executeLambda twoReplacements (fst (poolRun [ReturnSession 0] (close idleOne)))
       = Some (Inl DriverClosedError, fst (poolRun [ReturnSession 0] (close idleOne)))"
  using close_ends_idle_sessions_and_refuses [of idleOne twoReplacements "[ReturnSession 0]"]
  by (simp add: idleOne_fields)

subsection \<open>The payload of the pool-exhausted error\<close>

lemma constructed_timeout_unassigned:
  "QldbDriver agent global n = Inr d \<Longrightarrow> timeoutMillis d = None"
  by (auto simp add: QldbDriver_def Let_def split: if_splits)

text \<open>
  Claim C9, evaluated. The pool-exhausted error is to carry the configured
  acquisition timeout. On a driver of capacity 1, as the constructor builds it, the
  second \<open>getSession\<close> fails with a \<open>SessionPoolEmptyError\<close> that carries
  \<open>undefined\<close>: the constructor assigns nothing to \<open>_timeoutMillis\<close>.
\<close>

theorem pool_exhausted_error_payload_undefined:
  "QldbDriver None PosInfinity (Fin 1) = Inr capacityOne
   \<and> fst (getSession None capacityOne) = Inr 0
   \<and> fst (getSession None (snd (getSession None capacityOne))) = Inl (SessionPoolEmptyError None)"
  by (simp add: capacityOne_constructed)
     (simp add: capacityOne_def getSession_def throwIfClosed_def tryAcquire_def createSession_def
     release_def Let_def)

subsection \<open>The retry loop\<close>

lemmas driver_defs =
  loopBody_def getSession_def throwIfClosed_def tryAcquire_def createSession_def
  release_def Let_def catchBlock_def finallyBlock_def isInvalidSessionException_def
  sessionRan_def returnSessionToPool_def

text \<open>
  Claim C1, evaluated. Every acquired session is to be released exactly once on every
  exit of every iteration, so that the permits never exceed the capacity. On a driver
  of capacity 1: the first session fails with an invalid-session error and is
  released; in the second iteration the creation of a session fails, \<open>getSession\<close>
  gives its own permit back, and the \<open>finally\<close> block still finds the first
  session in the variable \<open>session\<close> and releases it a second time. The call ends
  with two permits available on a driver of capacity one.
\<close>

theorem executeLambda_releases_stale_session:
  "QldbDriver None PosInfinity (Fin 1) = Inr capacityOne
   \<and> map_option fst (executeLambda staleRelease capacityOne)
       = Some (Inl (OtherError ''session creation failed''))
   \<and> map_option (availablePermits \<circ> snd) (executeLambda staleRelease capacityOne) = Some (Fin 2)
   \<and> map_option (semaphore \<circ> snd) (executeLambda staleRelease capacityOne) = Some (Fin 2)
   \<and> map_option (maxConcurrentTransactions \<circ> snd) (executeLambda staleRelease capacityOne)
       = Some (Fin 1)"
  by (simp add: capacityOne_constructed executeLambda_def executeLambda_loop.simps [of _ 0]
      executeLambda_loop.simps [of _ "Suc 0"] staleRelease_def capacityOne_def driver_defs)

text \<open>
  Claim C3 says that a session whose attempt fails with a transaction-start or an
  invalid-session failure is discarded and that the loop goes on with a fresh one.
  Here the first attempt fails with \<open>StartTransactionError\<close> and leaves the session
  open: the iteration ends with that session back in the pool, the next
  \<open>getSession\<close> hands the same session out again, and the whole call creates one
  session only.
\<close>

theorem failed_open_session_is_requeued:
  "fst (loopBody (stillOpenFailure 0) None capacityOne) = Continue
   \<and> fst (snd (loopBody (stillOpenFailure 0) None capacityOne)) = Some 0
   \<and> sessionPool (snd (snd (loopBody (stillOpenFailure 0) None capacityOne))) = [0]
   \<and> fst (getSession (createOutcome (stillOpenFailure 1))
          (snd (snd (loopBody (stillOpenFailure 0) None capacityOne)))) = Inr 0
   \<and> map_option fst (executeLambda stillOpenFailure capacityOne) = Some (Inr 7)
   \<and> map_option (created \<circ> snd) (executeLambda stillOpenFailure capacityOne) = Some 1"
  by (simp add: executeLambda_def executeLambda_loop.simps [of _ 0]
      executeLambda_loop.simps [of _ "Suc 0"] stillOpenFailure_def capacityOne_def driver_defs)

lemma getSession_succeeds:
  assumes "\<not> isClosed d" and "num_less (Fin 0) (semaphore d)"
    and "sessionPool d = [] \<longrightarrow> transport = None"
  shows "\<exists>s d1. getSession transport d = (Inr s, d1) \<and> \<not> isClosed d1
           \<and> semaphore d1 = num_pred (semaphore d)"
  using assms
  by (auto simp add: getSession_def throwIfClosed_def tryAcquire_def createSession_def Let_def)

lemma loop_unfold_retry:
  assumes "getSession (createOutcome (env k)) d = (Inr s, d1)"
    and "runOutcome (env k) = Inl err"
    and "err = StartTransactionError \<or> isInvalidSessionException err"
  shows "executeLambda_loop env k session d =
           executeLambda_loop env (Suc k) (Some s)
             (returnSessionToPool s (sessionRan s (openAfterwards (env k)) d1))"
  using assms
  by (subst executeLambda_loop.simps)
     (auto simp add: loopBody_def catchBlock_def finallyBlock_def Let_def)

lemma loop_unfold_throw:
  assumes "getSession (createOutcome (env k)) d = (Inr s, d1)"
    and "runOutcome (env k) = Inl err"
    and "\<not> (err = StartTransactionError \<or> isInvalidSessionException err)"
  shows "executeLambda_loop env k session d =
           Some (Inl err, returnSessionToPool s (sessionRan s (openAfterwards (env k)) d1))"
  using assms
  by (subst executeLambda_loop.simps)
     (auto simp add: loopBody_def catchBlock_def finallyBlock_def Let_def)

lemma loop_unfold_return:
  assumes "getSession (createOutcome (env k)) d = (Inr s, d1)"
    and "runOutcome (env k) = Inr v"
  shows "executeLambda_loop env k session d =
           Some (Inr v, returnSessionToPool s (sessionRan s (openAfterwards (env k)) d1))"
  using assms
  by (subst executeLambda_loop.simps)
     (auto simp add: loopBody_def catchBlock_def finallyBlock_def Let_def)

lemma loop_unfold_acquire_throw:
  assumes "getSession (createOutcome (env k)) d = (Inl err, d1)"
    and "\<not> (err = StartTransactionError \<or> isInvalidSessionException err)"
  shows "executeLambda_loop env k session d = Some (Inl err, finallyBlock session d1)"
  using assms
  by (subst executeLambda_loop.simps)
     (auto simp add: loopBody_def catchBlock_def Let_def)

lemma loop_silent_replacements:
  assumes "\<not> isClosed d" and "num_less (Fin 0) (semaphore d)"
    and "\<forall>j<n. createOutcome (env (k + j)) = None
           \<and> (runOutcome (env (k + j)) = Inl StartTransactionError
              \<or> runOutcome (env (k + j)) = Inl InvalidSessionException)"
    and "createOutcome (env (k + n)) = None" and "runOutcome (env (k + n)) = Inr v"
  shows "\<exists>d'. executeLambda_loop env k session d = Some (Inr v, d')"
  using assms
proof (induction n arbitrary: k session d)
  case 0
  from getSession_succeeds [of d "createOutcome (env k)"] 0
  obtain s d1 where "getSession (createOutcome (env k)) d = (Inr s, d1)"
    by auto
  with 0 show ?case
    by (simp add: loop_unfold_return)
next
  case (Suc n)
  from Suc.prems(3) have now: "createOutcome (env k) = None"
    "runOutcome (env k) = Inl StartTransactionError
     \<or> runOutcome (env k) = Inl InvalidSessionException"
    by (metis add.right_neutral zero_less_Suc)+
  from getSession_succeeds [of d "createOutcome (env k)"] Suc.prems(1,2) now(1)
  obtain s d1 where g: "getSession (createOutcome (env k)) d = (Inr s, d1)"
    "\<not> isClosed d1" "semaphore d1 = num_pred (semaphore d)"
    by auto
  let ?d = "returnSessionToPool s (sessionRan s (openAfterwards (env k)) d1)"
  from now(2) obtain err where err: "runOutcome (env k) = Inl err"
    "err = StartTransactionError \<or> isInvalidSessionException err"
    by (auto simp add: isInvalidSessionException_def)
  have step: "executeLambda_loop env k session d = executeLambda_loop env (Suc k) (Some s) ?d"
    using g(1) err by (rule loop_unfold_retry)
  have "\<not> isClosed ?d" "num_less (Fin 0) (semaphore ?d)"
    using g(2,3) Suc.prems(2)
    by (simp_all add: returnSessionToPool_fields sessionRan_fields)
  moreover have "\<forall>j<n. createOutcome (env (Suc k + j)) = None
           \<and> (runOutcome (env (Suc k + j)) = Inl StartTransactionError
              \<or> runOutcome (env (Suc k + j)) = Inl InvalidSessionException)"
    using Suc.prems(3) by (metis Suc_less_eq add_Suc_shift)
  moreover have "createOutcome (env (Suc k + n)) = None" "runOutcome (env (Suc k + n)) = Inr v"
    using Suc.prems(4,5) by simp_all
  ultimately have "\<exists>d'. executeLambda_loop env (Suc k) (Some s) ?d = Some (Inr v, d')"
    by (rule Suc.IH)
  with step show ?case by simp
qed

text \<open>
  Claim C3, amended. When the attempt of an acquired session fails with
  \<open>StartTransactionError\<close> or an invalid-session error, the driver gives the session
  back through \<open>_returnSessionToPool\<close> (it is queued again exactly when it is still
  open) and goes into the next iteration; the failure is not surfaced. There is no
  bound on the number of such iterations: after any \<open>n\<close> of them a successful
  attempt is what the caller sees. A failure of any other class, of the attempt or of
  \<open>getSession\<close>, propagates to the caller as it is.
\<close>

theorem executeLambda_absorbs_session_failures:
  "(getSession (createOutcome (env k)) d = (Inr s, d') \<and> runOutcome (env k) = Inl err
      \<and> (err = StartTransactionError \<or> isInvalidSessionException err)
    \<longrightarrow> executeLambda_loop env k session d =
          executeLambda_loop env (Suc k) (Some s)
            (returnSessionToPool s (sessionRan s (openAfterwards (env k)) d'))
        \<and> sessionPool (returnSessionToPool s (sessionRan s (openAfterwards (env k)) d')) =
            (if openAfterwards (env k) then sessionPool d' @ [s] else sessionPool d'))
   \<and> (\<not> isClosed d \<and> num_less (Fin 0) (semaphore d)
      \<and> (\<forall>j<n. createOutcome (env j) = None
             \<and> (runOutcome (env j) = Inl StartTransactionError
                \<or> runOutcome (env j) = Inl InvalidSessionException))
      \<and> createOutcome (env n) = None \<and> runOutcome (env n) = Inr v
    \<longrightarrow> map_option fst (executeLambda env d) = Some (Inr v))
   \<and> (getSession (createOutcome (env k)) d = (Inr s, d') \<and> runOutcome (env k) = Inl err
      \<and> \<not> (err = StartTransactionError \<or> isInvalidSessionException err)
    \<longrightarrow> executeLambda_loop env k session d =
          Some (Inl err, returnSessionToPool s (sessionRan s (openAfterwards (env k)) d')))
   \<and> (getSession (createOutcome (env k)) d = (Inl err, d')
      \<and> \<not> (err = StartTransactionError \<or> isInvalidSessionException err)
    \<longrightarrow> map_option fst (executeLambda_loop env k session d) = Some (Inl err))"
proof (intro conjI impI)
  assume a: "getSession (createOutcome (env k)) d = (Inr s, d') \<and> runOutcome (env k) = Inl err
      \<and> (err = StartTransactionError \<or> isInvalidSessionException err)"
  then show "executeLambda_loop env k session d =
          executeLambda_loop env (Suc k) (Some s)
            (returnSessionToPool s (sessionRan s (openAfterwards (env k)) d'))"
    using loop_unfold_retry [where env = env and k = k and d = d and s = s and err = err]
    by blast
  show "sessionPool (returnSessionToPool s (sessionRan s (openAfterwards (env k)) d')) =
            (if openAfterwards (env k) then sessionPool d' @ [s] else sessionPool d')"
    by (simp add: returnSessionToPool_fields sessionRan_fields)
next
  assume a: "\<not> isClosed d \<and> num_less (Fin 0) (semaphore d)
      \<and> (\<forall>j<n. createOutcome (env j) = None
             \<and> (runOutcome (env j) = Inl StartTransactionError
                \<or> runOutcome (env j) = Inl InvalidSessionException))
      \<and> createOutcome (env n) = None \<and> runOutcome (env n) = Inr v"
  then have "\<exists>d'. executeLambda_loop env 0 None d = Some (Inr v, d')"
    using loop_silent_replacements [where env = env and k = 0 and n = n and d = d and v = v]
    by simp
  then show "map_option fst (executeLambda env d) = Some (Inr v)"
    by (auto simp add: executeLambda_def)
next
  assume "getSession (createOutcome (env k)) d = (Inr s, d') \<and> runOutcome (env k) = Inl err
      \<and> \<not> (err = StartTransactionError \<or> isInvalidSessionException err)"
  then show "executeLambda_loop env k session d =
          Some (Inl err, returnSessionToPool s (sessionRan s (openAfterwards (env k)) d'))"
    using loop_unfold_throw [where env = env and k = k and d = d and s = s and err = err]
    by blast
next
  assume "getSession (createOutcome (env k)) d = (Inl err, d')
      \<and> \<not> (err = StartTransactionError \<or> isInvalidSessionException err)"
  then have "executeLambda_loop env k session d = Some (Inl err, finallyBlock session d')"
    using loop_unfold_acquire_throw [where env = env and k = k and d = d and err = err]
    by blast
  then show "map_option fst (executeLambda_loop env k session d) = Some (Inl err)"
    by simp
qed

theorem executeLambda_absorbs_session_failures_witness:
  "executeLambda_loop twoReplacements 0 None capacityOne =
     executeLambda_loop twoReplacements 1 (Some 0)
       (returnSessionToPool 0 (sessionRan 0 True borrowedOne))
   \<and> sessionPool (returnSessionToPool 0 (sessionRan 0 True borrowedOne)) = [0]
   \<and> map_option fst (executeLambda twoReplacements capacityOne) = Some (Inr 7)
   \<and> executeLambda_loop twoReplacements 3 None capacityOne =
       Some (Inl (OtherError ''conflict''), returnSessionToPool 0 (sessionRan 0 True borrowedOne))
   \<and> map_option fst (executeLambda_loop twoReplacements 4 None capacityOne)
       = Some (Inl (OtherError ''transport down''))"
proof -
  have acquired: "getSession (createOutcome (twoReplacements 0)) capacityOne = (Inr 0, borrowedOne)"
    "getSession (createOutcome (twoReplacements 3)) capacityOne = (Inr 0, borrowedOne)"
    by (simp_all add: twoReplacements_def getSession_capacityOne)
  have first: "runOutcome (twoReplacements 0) = Inl StartTransactionError"
    "openAfterwards (twoReplacements 0)"
    by (simp_all add: twoReplacements_def)
  have usable: "\<not> isClosed capacityOne" "num_less (Fin 0) (semaphore capacityOne)"
    by (simp_all add: capacityOne_def)
  have failures: "\<forall>j<2. createOutcome (twoReplacements j) = None
      \<and> (runOutcome (twoReplacements j) = Inl StartTransactionError
         \<or> runOutcome (twoReplacements j) = Inl InvalidSessionException)"
    by (simp add: twoReplacements_def less_2_cases_iff)
  have success: "createOutcome (twoReplacements 2) = None" "runOutcome (twoReplacements 2) = Inr 7"
    by (simp_all add: twoReplacements_def)
  have conflict: "runOutcome (twoReplacements 3) = Inl (OtherError ''conflict'')"
    "openAfterwards (twoReplacements 3)"
    by (simp_all add: twoReplacements_def)
  have refused: "getSession (createOutcome (twoReplacements 4)) capacityOne
      = (Inl (OtherError ''transport down''), capacityOne)"
    by (simp add: twoReplacements_def capacityOne_def getSession_def throwIfClosed_def
        tryAcquire_def createSession_def release_def Let_def)
  from executeLambda_absorbs_session_failures
    [where env = twoReplacements and k = 0 and d = capacityOne and s = 0 and d' = borrowedOne
       and err = StartTransactionError and session = None and n = 2 and v = 7]
    acquired(1) first usable failures success borrowedOne_fields(1)
  have "executeLambda_loop twoReplacements 0 None capacityOne =
     executeLambda_loop twoReplacements 1 (Some 0)
       (returnSessionToPool 0 (sessionRan 0 True borrowedOne))
   \<and> sessionPool (returnSessionToPool 0 (sessionRan 0 True borrowedOne)) = [0]
   \<and> map_option fst (executeLambda twoReplacements capacityOne) = Some (Inr 7)"
    by simp
  moreover from executeLambda_absorbs_session_failures
    [where env = twoReplacements and k = 3 and d = capacityOne and s = 0 and d' = borrowedOne
       and err = "OtherError ''conflict''" and session = None and n = 0 and v = 7]
    acquired(2) conflict
  have "executeLambda_loop twoReplacements 3 None capacityOne =
       Some (Inl (OtherError ''conflict''), returnSessionToPool 0 (sessionRan 0 True borrowedOne))"
    by (simp add: isInvalidSessionException_def)
  moreover from executeLambda_absorbs_session_failures
    [where env = twoReplacements and k = 4 and d = capacityOne and d' = capacityOne
       and err = "OtherError ''transport down''" and session = None and n = 0 and v = 7]
    refused
  have "map_option fst (executeLambda_loop twoReplacements 4 None capacityOne)
       = Some (Inl (OtherError ''transport down''))"
    by (simp add: isInvalidSessionException_def)
  ultimately show ?thesis by simp
qed

section \<open>The result stream and its consumer\<close>

subsection \<open>One push cycle\<close>

lemma pushLoop_pushed:
  "pushLoop decode accept s = (canPush, s') \<Longrightarrow>
     pushed s' @ map decode (drop (retrieveIndex s') (Values (cachedPage s)))
       = pushed s @ map decode (drop (retrieveIndex s) (Values (cachedPage s)))"
proof (induction decode accept s rule: pushLoop.induct)
  case (1 decode accept s)
  then show ?case
    by (subst (asm) (2) pushLoop.simps)
       (auto simp add: pushValue_def Cons_nth_drop_Suc [symmetric] split: if_splits)
qed

lemma chained_last: "chained p rs \<Longrightarrow> nextPageToken p = None \<Longrightarrow> rs = []"
  by (cases rs) simp_all

lemma drain_step:
  assumes u: "\<not> shouldPushCachedPage u" "inFlight u = 0" "endPushes u = 0" "destroyed u = None"
  shows "cachedPage (drainPage decode accept u) = cachedPage u
         \<and> ((standing (drainPage decode accept u)
              \<and> promise decode (drainPage decode accept u) rs = promise decode u rs)
             \<or> (finished (drainPage decode accept u) \<and> nextPageToken (cachedPage u) = None
                 \<and> observed (drainPage decode accept u) = promise decode u []))"
proof -
  define t where "t = drainPage decode accept u"
  obtain canPush u' where run: "pushLoop decode accept u = (canPush, u')"
    by (cases "pushLoop decode accept u")
  note frame = pushLoop_frame [OF run]
  note page = pushLoop_page [OF run]
  note index = pushLoop_index [OF run]
  note emitted = pushLoop_pushed [OF run]
  have flat: "t =
     (if \<not> canPush then u'\<lparr> isPushingData := False \<rparr>
      else (case nextPageToken (cachedPage u') of
              None \<Rightarrow> u'\<lparr> endPushes := Suc (endPushes u'), isPushingData := False \<rparr>
            | Some token \<Rightarrow>
                u'\<lparr> isPushingData := True,
                    fetchCalls := fetchCalls u' @ [(txnId u', token)],
                    inFlight := Suc (inFlight u') \<rparr>))"
    unfolding t_def by (simp add: drainPage_flat [OF u(1)] run)
  have "cachedPage t = cachedPage u
         \<and> ((standing t \<and> promise decode t rs = promise decode u rs)
             \<or> (finished t \<and> nextPageToken (cachedPage u) = None
                 \<and> observed t = promise decode u []))"
  proof (cases canPush)
    case False
    with flat have t: "t = u'\<lparr> isPushingData := False \<rparr>" by simp
    have "standing t"
      using False frame page index u by (auto simp add: t standing_def)
    moreover have "cachedPage t = cachedPage u"
      using page by (simp add: t)
    moreover have "promise decode t rs = promise decode u rs"
      using frame page emitted u by (simp add: t promise_def)
    ultimately show ?thesis by simp
  next
    case True
    then have full: "length (Values (cachedPage u)) \<le> retrieveIndex u'"
      using index by simp
    from True run have flag: "\<not> shouldPushCachedPage u'"
      using pushLoop_flag [of decode accept u u'] u(1) by simp
    from emitted full
    have all: "pushed u' = pushed u @ map decode (drop (retrieveIndex u) (Values (cachedPage u)))"
      by simp
    show ?thesis
    proof (cases "nextPageToken (cachedPage u)")
      case None
      with flat True page
      have t: "t = u'\<lparr> endPushes := Suc (endPushes u'), isPushingData := False \<rparr>"
        by simp
      have "cachedPage t = cachedPage u"
        using page by (simp add: t)
      moreover have "finished t"
        using frame u by (simp add: t finished_def)
      moreover have "observed t = promise decode u []"
        using frame page all u None by (simp add: t observed_def promise_def tokensOf_def)
      ultimately show ?thesis using None by simp
    next
      case (Some token)
      with flat True page
      have t: "t = u'\<lparr> isPushingData := True,
                       fetchCalls := fetchCalls u' @ [(txnId u', token)],
                       inFlight := Suc (inFlight u') \<rparr>"
        by simp
      have "standing t"
        using frame page full flag u Some by (simp add: t standing_def)
      moreover have "cachedPage t = cachedPage u"
        using page by (simp add: t)
      moreover have "promise decode t rs = promise decode u rs"
        using frame page all full u Some by (simp add: t promise_def tokensOf_def)
      ultimately show ?thesis by simp
    qed
  qed
  then show ?thesis
    unfolding t_def .
qed

lemma read_step:
  assumes st: "standing s" and idle: "inFlight s = 0"
  shows "cachedPage (read decode accept s) = cachedPage s
         \<and> ((standing (read decode accept s)
              \<and> promise decode (read decode accept s) rs = promise decode s rs)
             \<or> (finished (read decode accept s) \<and> nextPageToken (cachedPage s) = None
                 \<and> observed (read decode accept s) = promise decode s []))"
proof (cases "shouldPushCachedPage s \<or> nextPageToken (cachedPage s) = None")
  case True
  let ?u = "s\<lparr> isPushingData := True, shouldPushCachedPage := False \<rparr>"
  from st idle have quiet: "\<not> isPushingData s" "endPushes s = 0" "destroyed s = None"
    by (simp_all add: standing_def)
  have r: "read decode accept s = drainPage decode accept ?u"
    using quiet(1) True by (rule read_drains)
  have same: "promise decode ?u rs = promise decode s rs" "promise decode ?u [] = promise decode s []"
    by (simp_all add: promise_def)
  from drain_step [of ?u decode accept rs] idle quiet show ?thesis
    unfolding r same by simp
next
  case False
  then obtain token where tok: "nextPageToken (cachedPage s) = Some token"
    and flag: "\<not> shouldPushCachedPage s"
    by auto
  from st idle have quiet: "\<not> isPushingData s" "endPushes s = 0" "destroyed s = None"
    "length (Values (cachedPage s)) \<le> retrieveIndex s"
    using flag by (simp_all add: standing_def)
  have r: "read decode accept s =
           s\<lparr> isPushingData := True,
              fetchCalls := fetchCalls s @ [(txnId s, token)],
              inFlight := Suc (inFlight s) \<rparr>"
    using quiet(1) flag tok by (rule read_fetches)
  have "standing (read decode accept s)"
    using quiet idle flag tok by (simp add: r standing_def)
  moreover have "cachedPage (read decode accept s) = cachedPage s"
    by (simp add: r)
  moreover have "promise decode (read decode accept s) rs = promise decode s rs"
    using idle tok by (simp add: r promise_def tokensOf_def)
  ultimately show ?thesis by simp
qed

lemma settle_step:
  assumes st: "standing s" and busy: "inFlight s \<noteq> 0"
  shows "cachedPage (fetchPageSettled decode accept (Inr r) s) = Page r
         \<and> ((standing (fetchPageSettled decode accept (Inr r) s)
              \<and> promise decode (fetchPageSettled decode accept (Inr r) s) rs
                  = promise decode s (r # rs))
             \<or> (finished (fetchPageSettled decode accept (Inr r) s)
                 \<and> nextPageToken (Page r) = None
                 \<and> observed (fetchPageSettled decode accept (Inr r) s) = promise decode s [r]))"
proof -
  let ?u = "s\<lparr> inFlight := inFlight s - 1,
                cachedPage := Page r,
                ioUsage := mergeIOUsage (ioUsage s) (ConsumedIOs r),
                timingInformation :=
                  mergeTimingInformation (timingInformation s) (TimingInformation r),
                retrieveIndex := 0 \<rparr>"
  from st busy have susp: "inFlight s = 1" "\<not> shouldPushCachedPage s" "endPushes s = 0"
    "destroyed s = None" "length (Values (cachedPage s)) \<le> retrieveIndex s"
    by (simp_all add: standing_def)
  have r: "fetchPageSettled decode accept (Inr r) s = drainPage decode accept ?u"
    by (simp add: fetchPageSettled_def)
  have same: "promise decode ?u rs = promise decode s (r # rs)"
    "promise decode ?u [] = promise decode s [r]"
    using susp by (simp_all add: promise_def)
  from drain_step [of ?u decode accept rs] susp show ?thesis
    unfolding r same by simp
qed

lemma settle_error:
  "fetchPageSettled decode accept (Inl e) s =
     s\<lparr> inFlight := inFlight s - 1, destroyed := Some e, isPushingData := False \<rparr>"
  by (simp add: fetchPageSettled_def streamFinally.simps)

subsection \<open>Every value once, in order\<close>

lemma consume_finished:
  "finished s \<Longrightarrow> consume decode accept answers s = s"
  by (subst consume.simps) (simp add: finished_def)

lemma consume_destroyed:
  "destroyed s \<noteq> None \<Longrightarrow> consume decode accept answers s = s"
  by (subst consume.simps) simp

lemma consume_chained:
  assumes "standing s" and "chained (cachedPage s) rs" and "answers = map Inr rs"
  shows "finished (consume decode accept answers s)
         \<and> observed (consume decode accept answers s) = promise decode s rs"
  using assms
proof (induction decode accept answers s arbitrary: rs rule: consume.induct)
  case (1 decode accept answers s)
  from "1.prems"(1) have live: "\<not> (0 < endPushes s \<or> destroyed s \<noteq> None)"
    by (simp add: standing_def)
  show ?case
  proof (cases "inFlight s = 0")
    case True
    with "1.prems"(1) have quiet: "\<not> isPushingData s"
      by (simp add: standing_def)
    have unfold: "consume decode accept answers s
        = consume decode accept answers (read decode accept s)"
      using live True quiet by (subst consume.simps) simp
    from read_step [OF "1.prems"(1) True, of decode accept rs]
    have page: "cachedPage (read decode accept s) = cachedPage s"
      and alt: "(standing (read decode accept s)
              \<and> promise decode (read decode accept s) rs = promise decode s rs)
             \<or> (finished (read decode accept s) \<and> nextPageToken (cachedPage s) = None
                 \<and> observed (read decode accept s) = promise decode s [])"
      by simp_all
    from alt show ?thesis
    proof
      assume "standing (read decode accept s)
              \<and> promise decode (read decode accept s) rs = promise decode s rs"
      with "1.IH"(2) [of rs] live True quiet "1.prems"(2,3) page show ?thesis
        unfolding unfold by simp
    next
      assume a: "finished (read decode accept s) \<and> nextPageToken (cachedPage s) = None
                 \<and> observed (read decode accept s) = promise decode s []"
      with "1.prems"(2) have "rs = []"
        by (simp add: chained_last)
      with a show ?thesis
        unfolding unfold by (simp add: consume_finished)
    qed
  next
    case False
    with "1.prems"(1) have "nextPageToken (cachedPage s) \<noteq> None"
      by (simp add: standing_def)
    with "1.prems"(2) obtain r rest where rs: "rs = r # rest" and ch: "chained (Page r) rest"
      by (cases rs) auto
    have unfold: "consume decode accept answers s
        = consume decode accept (map Inr rest) (fetchPageSettled decode accept (Inr r) s)"
      using live False "1.prems"(3) rs by (subst consume.simps) simp
    from settle_step [OF "1.prems"(1) False, of decode accept r rest]
    have page: "cachedPage (fetchPageSettled decode accept (Inr r) s) = Page r"
      and alt: "(standing (fetchPageSettled decode accept (Inr r) s)
              \<and> promise decode (fetchPageSettled decode accept (Inr r) s) rest
                  = promise decode s (r # rest))
             \<or> (finished (fetchPageSettled decode accept (Inr r) s)
                 \<and> nextPageToken (Page r) = None
                 \<and> observed (fetchPageSettled decode accept (Inr r) s) = promise decode s [r])"
      by simp_all
    from alt show ?thesis
    proof
      assume "standing (fetchPageSettled decode accept (Inr r) s)
              \<and> promise decode (fetchPageSettled decode accept (Inr r) s) rest
                  = promise decode s (r # rest)"
      with "1.IH"(1) [of "Inr r" "map Inr rest" rest] live False "1.prems"(3) rs ch page
      show ?thesis
        unfolding unfold by simp
    next
      assume a: "finished (fetchPageSettled decode accept (Inr r) s)
                 \<and> nextPageToken (Page r) = None
                 \<and> observed (fetchPageSettled decode accept (Inr r) s) = promise decode s [r]"
      with ch have "rest = []"
        by (simp add: chained_last)
      with a show ?thesis
        unfolding unfold rs by (simp add: consume_finished)
    qed
  qed
qed

lemma consume_end_signal:
  assumes "standing s"
  shows "endPushes (consume decode accept answers s)
           = (if nextPageToken (cachedPage (consume decode accept answers s)) = None then 1 else 0)"
  using assms
proof (induction decode accept answers s rule: consume.induct)
  case (1 decode accept answers s)
  from "1.prems" have live: "\<not> (0 < endPushes s \<or> destroyed s \<noteq> None)"
    by (simp add: standing_def)
  show ?case
  proof (cases "inFlight s = 0")
    case True
    with "1.prems" have quiet: "\<not> isPushingData s"
      by (simp add: standing_def)
    have unfold: "consume decode accept answers s
        = consume decode accept answers (read decode accept s)"
      using live True quiet by (subst consume.simps) simp
    from read_step [OF "1.prems" True, of decode accept "[]"]
    have page: "cachedPage (read decode accept s) = cachedPage s"
      and alt: "standing (read decode accept s)
             \<or> (finished (read decode accept s) \<and> nextPageToken (cachedPage s) = None)"
      by auto
    from alt show ?thesis
    proof
      assume "standing (read decode accept s)"
      with "1.IH"(2) live True quiet show ?thesis
        unfolding unfold by simp
    next
      assume a: "finished (read decode accept s) \<and> nextPageToken (cachedPage s) = None"
      with page show ?thesis
        unfolding unfold by (simp add: consume_finished) (simp add: finished_def)
    qed
  next
    case False
    with "1.prems" have susp: "nextPageToken (cachedPage s) \<noteq> None" "endPushes s = 0"
      by (simp_all add: standing_def)
    show ?thesis
    proof (cases answers)
      case Nil
      with live False have "consume decode accept answers s = s"
        by (subst consume.simps) simp
      with susp show ?thesis by simp
    next
      case (Cons answer rest)
      have unfold: "consume decode accept answers s
          = consume decode accept rest (fetchPageSettled decode accept answer s)"
        using live False Cons by (subst consume.simps) simp
      show ?thesis
      proof (cases answer)
        case (Inl e)
        then have "consume decode accept answers s
            = s\<lparr> inFlight := inFlight s - 1, destroyed := Some e, isPushingData := False \<rparr>"
          unfolding unfold by (simp add: settle_error consume_destroyed)
        with susp show ?thesis by simp
      next
        case (Inr r)
        from settle_step [OF "1.prems" False, of decode accept r "[]"]
        have page: "cachedPage (fetchPageSettled decode accept (Inr r) s) = Page r"
          and alt: "standing (fetchPageSettled decode accept (Inr r) s)
             \<or> (finished (fetchPageSettled decode accept (Inr r) s)
                 \<and> nextPageToken (Page r) = None)"
          by auto
        from alt show ?thesis
        proof
          assume "standing (fetchPageSettled decode accept (Inr r) s)"
          with "1.IH"(1) [of answer rest] live False Cons Inr show ?thesis
            unfolding unfold by simp
        next
          assume a: "finished (fetchPageSettled decode accept (Inr r) s)
                 \<and> nextPageToken (Page r) = None"
          with page Inr show ?thesis
            unfolding unfold by (simp add: consume_finished) (simp add: finished_def)
        qed
      qed
    qed
  qed
qed

lemma standing_ResultStream: "standing (ResultStream txn executeResult)"
  by (simp add: standing_def ResultStream_def)

lemma tokensOf_chained: "chained p rs \<Longrightarrow> length (tokensOf (p # map Page rs)) = length rs"
  by (induction rs arbitrary: p) (auto simp add: tokensOf_def)

lemmas stream_defs =
  ResultStream_def twoPages_def secondPage_def nextPageToken_def tokensOf_def
  getIOUsage_def getTimingInformation_def

text \<open>
  Claim C2. For every sequence of pages (the first page of the execute result, then
  the pages reached through the continuation tokens), every decoder and every pattern
  of refusals by the consumer, a stream that is read to its end gives every value of
  every page to \<open>push\<close> exactly once, in the order of the pages and of the values in
  them; it calls \<open>fetchPage\<close> once for each token, with that token and in that
  order; and it pushes the end signal once. Whatever the transport answers, the end
  signal has been pushed once when the last cached page carries no token, and not at
  all when it carries one.
\<close>

theorem resultStream_delivers_every_value_once:
  "(chained (FirstPage executeResult) rs \<longrightarrow>
      pushed (consume decode accept (map Inr rs) (ResultStream txn executeResult))
        = map decode (concat (map Values (FirstPage executeResult # map Page rs)))
      \<and> fetchCalls (consume decode accept (map Inr rs) (ResultStream txn executeResult))
        = map (Pair txn) (tokensOf (FirstPage executeResult # map Page rs))
      \<and> length (fetchCalls (consume decode accept (map Inr rs) (ResultStream txn executeResult)))
        = length rs
      \<and> endPushes (consume decode accept (map Inr rs) (ResultStream txn executeResult)) = 1
      \<and> destroyed (consume decode accept (map Inr rs) (ResultStream txn executeResult)) = None)
   \<and> endPushes (consume decode accept answers (ResultStream txn executeResult))
       = (if nextPageToken
               (cachedPage (consume decode accept answers (ResultStream txn executeResult))) = None
          then 1 else 0)"
proof (intro conjI impI)
  let ?s = "ResultStream txn executeResult :: ('a, 'b) resultStream"
  assume ch: "chained (FirstPage executeResult) rs"
  then have "chained (cachedPage ?s) rs"
    by (simp add: ResultStream_def)
  from consume_chained [OF standing_ResultStream this refl, of decode accept]
  have fin: "finished (consume decode accept (map Inr rs) ?s)"
    and obs: "observed (consume decode accept (map Inr rs) ?s) = promise decode ?s rs"
    by simp_all
  from obs show "pushed (consume decode accept (map Inr rs) ?s)
        = map decode (concat (map Values (FirstPage executeResult # map Page rs)))"
    by (simp add: observed_def promise_def ResultStream_def comp_def)
  from obs show calls: "fetchCalls (consume decode accept (map Inr rs) ?s)
        = map (Pair txn) (tokensOf (FirstPage executeResult # map Page rs))"
    by (simp add: observed_def promise_def ResultStream_def)
  from ch show "length (fetchCalls (consume decode accept (map Inr rs) ?s)) = length rs"
    unfolding calls by (simp add: tokensOf_chained)
  from fin show "endPushes (consume decode accept (map Inr rs) ?s) = 1"
    and "destroyed (consume decode accept (map Inr rs) ?s) = None"
    by (simp_all add: finished_def)
next
  show "endPushes (consume decode accept answers (ResultStream txn executeResult))
       = (if nextPageToken
               (cachedPage (consume decode accept answers (ResultStream txn executeResult))) = None
          then 1 else 0)"
    by (rule consume_end_signal [OF standing_ResultStream])
qed

theorem resultStream_delivers_every_value_once_witness:
  "chained (FirstPage twoPages) [secondPage]
   \<and> pushed (consume Suc (\<lambda>n. n \<noteq> 1) [Inr secondPage] (ResultStream ''txn'' twoPages)) = [2, 3, 4]
   \<and> fetchCalls (consume Suc (\<lambda>n. n \<noteq> 1) [Inr secondPage] (ResultStream ''txn'' twoPages))
       = [(''txn'', ''t2'')]
   \<and> endPushes (consume Suc (\<lambda>n. n \<noteq> 1) [Inr secondPage] (ResultStream ''txn'' twoPages)) = 1"
  using resultStream_delivers_every_value_once
    [of twoPages "[secondPage]" Suc "\<lambda>n. n \<noteq> 1" "''txn''" "[]"]
  by (simp add: stream_defs)

subsection \<open>Read IOs and processing time\<close>

lemma foldl_mergeIOUsage:
  "foldl mergeIOUsage u xs =
     (if u = None \<and> (\<forall>x \<in> set xs. x = None) then None
      else Some ((case u of None \<Rightarrow> 0 | Some n \<Rightarrow> n)
                 + (\<Sum>x\<leftarrow>xs. case x of None \<Rightarrow> 0 | Some n \<Rightarrow> n)))"
  by (induction xs arbitrary: u)
     (auto simp add: mergeIOUsage_def accumulateIOUsage_def split: option.splits)

lemma foldl_mergeTimingInformation:
  "foldl mergeTimingInformation u xs =
     (if u = None \<and> (\<forall>x \<in> set xs. x = None) then None
      else Some ((case u of None \<Rightarrow> 0 | Some n \<Rightarrow> n)
                 + (\<Sum>x\<leftarrow>xs. case x of None \<Rightarrow> 0 | Some n \<Rightarrow> n)))"
  by (induction xs arbitrary: u)
     (auto simp add: mergeTimingInformation_def accumulateTimingInfo_def split: option.splits)

text \<open>
  Claim C5. After a stream was read to its end, its read-IO total and its
  processing-time total are each the sum of what the execute result and every fetched
  page reported, a missing report counting as zero; a total is unset exactly when
  no answer reported a value.
\<close>

theorem resultStream_totals_are_sums:
  assumes "chained (FirstPage executeResult) rs"
  shows "ioUsage (consume decode accept (map Inr rs) (ResultStream txn executeResult))
           = (if \<forall>x \<in> set (FirstConsumedIOs executeResult # map ConsumedIOs rs). x = None
              then None
              else Some (\<Sum>x\<leftarrow>FirstConsumedIOs executeResult # map ConsumedIOs rs.
                           case x of None \<Rightarrow> 0 | Some n \<Rightarrow> n))
         \<and> timingInformation (consume decode accept (map Inr rs) (ResultStream txn executeResult))
           = (if \<forall>x \<in> set (FirstTimingInformation executeResult # map TimingInformation rs).
                   x = None
              then None
              else Some (\<Sum>x\<leftarrow>FirstTimingInformation executeResult # map TimingInformation rs.
                           case x of None \<Rightarrow> 0 | Some n \<Rightarrow> n))"
proof -
  let ?s = "ResultStream txn executeResult :: ('a, 'b) resultStream"
  from assms have "chained (cachedPage ?s) rs"
    by (simp add: ResultStream_def)
  from consume_chained [OF standing_ResultStream this refl, of decode accept]
  have obs: "observed (consume decode accept (map Inr rs) ?s) = promise decode ?s rs"
    by simp
  then have "ioUsage (consume decode accept (map Inr rs) ?s)
      = foldl mergeIOUsage (getIOUsage (FirstConsumedIOs executeResult)) (map ConsumedIOs rs)"
    and "timingInformation (consume decode accept (map Inr rs) ?s)
      = foldl mergeTimingInformation (getTimingInformation (FirstTimingInformation executeResult))
          (map TimingInformation rs)"
    by (simp_all add: observed_def promise_def ResultStream_def)
  then show ?thesis
    by (simp add: foldl_mergeIOUsage foldl_mergeTimingInformation getIOUsage_def
        getTimingInformation_def split: option.splits)
qed

theorem resultStream_totals_are_sums_witness:
  "chained (FirstPage twoPages) [secondPage]
   \<and> ioUsage (consume Suc (\<lambda>n. n \<noteq> 1) [Inr secondPage] (ResultStream ''txn'' twoPages)) = Some 4
   \<and> timingInformation (consume Suc (\<lambda>n. n \<noteq> 1) [Inr secondPage] (ResultStream ''txn'' twoPages))
       = Some 5"
  using resultStream_totals_are_sums [of twoPages "[secondPage]" Suc "\<lambda>n. n \<noteq> 1" "''txn''"]
  by (simp add: stream_defs)

subsection \<open>One fetch at a time, and none after a refusal\<close>











end
